theory Spec2Isabelle
  imports Main "HOL-Library.Sublist" "HOL-Library.Multiset"
begin

section \<open>Python strings\<close>

text \<open>
  A Python \<open>str\<close> is modelled as a \<open>string\<close>, a list of characters, each \<open>char\<close> standing
  for the code point of the same number (0 to 255). The whitespace that \<open>str.strip()\<close> and
  \<open>str.split()\<close> recognise is what \<open>str.isspace()\<close> accepts; among these code points that
  is tab, line feed, vertical tab, form feed, carriage return, the four separators
  0x1C..0x1F, the space, the next-line character 0x85 and the no-break space 0xA0.
\<close>

definition is_space :: "char \<Rightarrow> bool" where
  "is_space c \<longleftrightarrow> c \<in> {CHR 0x09, CHR 0x0A, CHR 0x0B, CHR 0x0C, CHR 0x0D,
                        CHR 0x1C, CHR 0x1D, CHR 0x1E, CHR 0x1F, CHR 0x20,
                        CHR 0x85, CHR 0xA0}"

definition lstrip :: "string \<Rightarrow> string" where
  "lstrip s = dropWhile is_space s"

definition rstrip :: "string \<Rightarrow> string" where
  "rstrip s = rev (dropWhile is_space (rev s))"

definition strip :: "string \<Rightarrow> string" where
  "strip s = rstrip (lstrip s)"

definition startswith :: "string \<Rightarrow> string \<Rightarrow> bool" where
  "startswith s p \<longleftrightarrow> take (length p) s = p"

section \<open>ID handling (data_utils.py)\<close>

text \<open>
  \<^verbatim>\<open>
  def ensure_uuid_prefix(x: str) -> str:
      if not x:
          return x
      s = str(x).strip()
      return s if s.startswith("uuid:") else f"uuid:{s}"
  \<close>
  The argument is a string as annotated; \<open>not x\<close> is then \<open>x = ""\<close>.
\<close>

definition ensure_uuid_prefix :: "string \<Rightarrow> string" where
  "ensure_uuid_prefix x =
     (if x = [] then x
      else let s = strip x in
           if startswith s ''uuid:'' then s else ''uuid:'' @ s)"

text \<open>
  \<open>str.replace(old, new)\<close>: every non-overlapping occurrence of \<open>old\<close>, scanning from the
  left. The source calls it with the non-empty literals \<open>"uuid:"\<close> and \<open>","\<close>; with an empty
  \<open>old\<close> Python puts \<open>new\<close> before every character and at the end.
\<close>

function replace_all :: "string \<Rightarrow> string \<Rightarrow> string \<Rightarrow> string" where
  "replace_all old new s =
     (if old = [] then new @ concat (map (\<lambda>c. c # new) s)
      else if s = [] then []
      else if startswith s old then new @ replace_all old new (drop (length old) s)
      else hd s # replace_all old new (tl s))"
  by pat_completeness auto
termination
  by (relation "measure (\<lambda>(old, new, s). length s)") auto

declare replace_all.simps [simp del]

text \<open>\<open>sep.join(parts)\<close>.\<close>

fun join :: "string \<Rightarrow> string list \<Rightarrow> string" where
  "join sep [] = []"
| "join sep [x] = x"
| "join sep (x # y # ys) = x @ sep @ join sep (y # ys)"

text \<open>
  \<open>split_on P s\<close> cuts \<open>s\<close> at every character satisfying \<open>P\<close> and keeps empty pieces, as
  \<open>s.split(sep)\<close> does for a one-character separator; \<open>py_split\<close> is \<open>s.split()\<close>, which
  cuts at runs of whitespace and returns no empty piece.
\<close>

fun split_on :: "(char \<Rightarrow> bool) \<Rightarrow> string \<Rightarrow> string list" where
  "split_on P [] = [[]]"
| "split_on P (c # cs) =
     (if P c then [] # split_on P cs
      else (case split_on P cs of [] \<Rightarrow> [[c]] | t # ts \<Rightarrow> (c # t) # ts))"

definition split_char :: "char \<Rightarrow> string \<Rightarrow> string list" where
  "split_char sep s = split_on (\<lambda>c. c = sep) s"

definition py_split :: "string \<Rightarrow> string list" where
  "py_split s = filter (\<lambda>t. t \<noteq> []) (split_on is_space s)"

text \<open>
  \<open>occurs old s\<close>: the string \<open>old\<close> occurs somewhere in \<open>s\<close> (Python's \<open>old in s\<close> for two
  strings).
\<close>

fun occurs :: "string \<Rightarrow> string \<Rightarrow> bool" where
  "occurs old [] \<longleftrightarrow> old = []"
| "occurs old (c # cs) \<longleftrightarrow> startswith (c # cs) old \<or> occurs old cs"

section \<open>Cells, rows and the known-records table\<close>

text \<open>
  A pandas cell as the code meets it: a missing value (\<open>None\<close> or \<open>NaN\<close>, both rejected by
  \<open>pd.notna\<close>), a string, or an integer (the platform's numeric \<open>_id\<close>). \<open>str_of_cell\<close> is
  Python's \<open>str()\<close> on it.
\<close>

datatype cell = PyNone | NaN | Str string | Num int

definition notna :: "cell \<Rightarrow> bool" where
  "notna v \<longleftrightarrow> v \<noteq> PyNone \<and> v \<noteq> NaN"

function str_of_nat :: "nat \<Rightarrow> string" where
  "str_of_nat n =
     (if n < 10 then [char_of (48 + n)]
      else str_of_nat (n div 10) @ [char_of (48 + n mod 10)])"
  by pat_completeness auto
termination
  by (relation "measure id") auto

declare str_of_nat.simps [simp del]

definition str_of_int :: "int \<Rightarrow> string" where
  "str_of_int i = (if i < 0 then CHR ''-'' # str_of_nat (nat (- i)) else str_of_nat (nat i))"

fun str_of_cell :: "cell \<Rightarrow> string" where
  "str_of_cell PyNone = ''None''"
| "str_of_cell NaN = ''nan''"
| "str_of_cell (Str s) = s"
| "str_of_cell (Num i) = str_of_int i"

text \<open>
  The exceptions the modelled code could raise; a function that may raise returns
  \<open>py_error + 'a\<close>, with \<open>Inl\<close> for the exception.
\<close>

datatype py_error = IndexError | KeyError | TypeError | AttributeError

text \<open>
  A row (\<open>pd.Series\<close>) maps column names to cells. \<open>row.get(col)\<close> gives \<open>None\<close> for a
  column the row does not have, \<open>row.get(col, default)\<close> gives the default, and \<open>row[col]\<close>
  raises \<open>KeyError\<close>.
\<close>

type_synonym row = "string \<rightharpoonup> cell"

definition row_index :: "row \<Rightarrow> string \<Rightarrow> py_error + cell" where
  "row_index row col = (case row col of None \<Rightarrow> Inl KeyError | Some v \<Rightarrow> Inr v)"

definition row_get :: "row \<Rightarrow> string \<Rightarrow> cell" where
  "row_get row col = (case row col of None \<Rightarrow> PyNone | Some v \<Rightarrow> v)"

definition row_get_default :: "row \<Rightarrow> string \<Rightarrow> cell \<Rightarrow> cell" where
  "row_get_default row col d = (case row col of None \<Rightarrow> d | Some v \<Rightarrow> v)"

text \<open>
  One line of the known-records table built by \<open>fetch_submission_map\<close>: the columns
  \<open>_id\<close>, \<open>_uuid\<close> and \<open>meta/instanceID\<close>. The table is a list of such lines, and the
  optional argument \<open>id_map_df\<close> is an \<open>option\<close> of it; \<open>df.empty\<close> is the empty list.
\<close>

record id_entry =
  col_id :: cell
  col_uuid :: cell
  col_instanceID :: cell

text \<open>\<open>df.iloc[i]\<close> for a position \<open>i\<close> that is not negative.\<close>

definition iloc :: "'a list \<Rightarrow> nat \<Rightarrow> py_error + 'a" where
  "iloc df i = (if i < length df then Inr (df ! i) else Inl IndexError)"

text \<open>
  \<^verbatim>\<open>
  def build_existing_id_set(id_map_df):
      if id_map_df is None or id_map_df.empty:
          return set()
      ids = set()
      for val in id_map_df["meta/instanceID"].dropna():
          val_str = str(val).strip()
          ids.add(ensure_uuid_prefix(val_str))
          ids.add(val_str.replace("uuid:", ""))
      return ids
  \<close>
\<close>

definition add_id_forms :: "cell \<Rightarrow> string set \<Rightarrow> string set" where
  "add_id_forms val ids =
     (let val_str = strip (str_of_cell val)
      in insert (replace_all ''uuid:'' [] val_str) (insert (ensure_uuid_prefix val_str) ids))"

definition build_existing_id_set :: "id_entry list option \<Rightarrow> string set" where
  "build_existing_id_set id_map_df =
     (case id_map_df of
        None \<Rightarrow> {}
      | Some df \<Rightarrow>
          if df = [] then {}
          else fold add_id_forms (filter notna (map col_instanceID df)) {})"

text \<open>
  \<^verbatim>\<open>
  def get_submission_id(row, id_map_df=None):
      for col in ["meta/instanceID", "_uuid"]:
          if pd.notna(val := row.get(col)):
              return ensure_uuid_prefix(str(val).strip())
      if pd.notna(row.get("_id")) and id_map_df is not None and not id_map_df.empty:
          matches = id_map_df[id_map_df["_id"] == row["_id"]]
          if len(matches) == 1:
              return ensure_uuid_prefix(str(matches.iloc[0]["meta/instanceID"]))
      return None
  \<close>
  \<open>direct_id\<close> is the loop over the two direct columns. The comparison with \<open>row["_id"]\<close>
  is made only when that cell is not missing, so it is equality of cells: a string never
  equals a number.
\<close>

fun direct_id :: "row \<Rightarrow> string list \<Rightarrow> string option" where
  "direct_id row [] = None"
| "direct_id row (col # cols) =
     (let val = row_get row col
      in if notna val then Some (ensure_uuid_prefix (strip (str_of_cell val)))
         else direct_id row cols)"

definition id_lookup :: "row \<Rightarrow> id_entry list option \<Rightarrow> py_error + string option" where
  "id_lookup row id_map_df =
     (case id_map_df of
        None \<Rightarrow> Inr None
      | Some df \<Rightarrow>
          if notna (row_get row ''_id'') \<and> df \<noteq> [] then
            (case row_index row ''_id'' of
               Inl e \<Rightarrow> Inl e
             | Inr rid \<Rightarrow>
                 (let matches = filter (\<lambda>e. col_id e = rid) df
                  in if length matches = 1 then
                       (case iloc matches 0 of
                          Inl e \<Rightarrow> Inl e
                        | Inr m \<Rightarrow> Inr (Some (ensure_uuid_prefix (str_of_cell (col_instanceID m)))))
                     else Inr None))
          else Inr None)"

definition get_submission_id :: "row \<Rightarrow> id_entry list option \<Rightarrow> py_error + string option" where
  "get_submission_id row id_map_df =
     (case direct_id row [''meta/instanceID'', ''_uuid''] of
        Some r \<Rightarrow> Inr (Some r)
      | None \<Rightarrow> id_lookup row id_map_df)"

section \<open>Schema processing (data_utils.py)\<close>

text \<open>
  The asset, its survey and its choices are parsed JSON: any of them, and any value inside
  them, may be \<open>None\<close>, a string, a number, a boolean, a list or a dictionary. Numbers are
  taken to be integers, and a dictionary is the list of its entries in insertion order,
  with distinct keys.
\<close>

datatype pyval = PNone | PBool bool | PInt int | PStr string | PList "pyval list"
  | PDict "(string \<times> pyval) list"

text \<open>Truth of a value in \<open>if x\<close> and \<open>not x\<close>.\<close>

fun py_truthy :: "pyval \<Rightarrow> bool" where
  "py_truthy PNone = False"
| "py_truthy (PBool b) = b"
| "py_truthy (PInt i) = (i \<noteq> 0)"
| "py_truthy (PStr s) = (s \<noteq> [])"
| "py_truthy (PList xs) = (xs \<noteq> [])"
| "py_truthy (PDict d) = (d \<noteq> [])"

fun is_str :: "pyval \<Rightarrow> bool" where
  "is_str (PStr s) = True"
| "is_str _ = False"

fun str_val :: "pyval \<Rightarrow> string" where
  "str_val (PStr s) = s"
| "str_val _ = []"

text \<open>
  \<open>x.get(key, default)\<close>: only a dictionary has the method; on any other value the call
  raises \<open>AttributeError\<close>. A key that is present with the value \<open>None\<close> gives \<open>None\<close>, not
  the default.
\<close>

definition dict_get :: "pyval \<Rightarrow> string \<Rightarrow> pyval \<Rightarrow> py_error + pyval" where
  "dict_get x key d =
     (case x of
        PDict kvs \<Rightarrow> Inr (case map_of kvs key of None \<Rightarrow> d | Some v \<Rightarrow> v)
      | _ \<Rightarrow> Inl AttributeError)"

text \<open>
  \<open>for x in xs\<close>: a list gives its elements, a string its characters, a dictionary its
  keys; \<open>None\<close>, a number and a boolean are not iterable.
\<close>

fun py_iter :: "pyval \<Rightarrow> py_error + pyval list" where
  "py_iter (PList xs) = Inr xs"
| "py_iter (PStr s) = Inr (map (\<lambda>c. PStr [c]) s)"
| "py_iter (PDict d) = Inr (map (\<lambda>kv. PStr (fst kv)) d)"
| "py_iter _ = Inl TypeError"

text \<open>
  \<open>key in x\<close> for a string \<open>key\<close>: a key of a dictionary, an element of a list, a part of a
  string; \<open>TypeError\<close> on \<open>None\<close>, a number and a boolean.
\<close>

fun py_contains :: "string \<Rightarrow> pyval \<Rightarrow> py_error + bool" where
  "py_contains key (PDict d) = Inr (key \<in> fst ` set d)"
| "py_contains key (PList xs) = Inr (PStr key \<in> set xs)"
| "py_contains key (PStr s) = Inr (occurs key s)"
| "py_contains key _ = Inl TypeError"

text \<open>A list or a dictionary cannot be the key of a dictionary.\<close>

fun py_hashable :: "pyval \<Rightarrow> bool" where
  "py_hashable (PList xs) = False"
| "py_hashable (PDict d) = False"
| "py_hashable _ = True"

text \<open>
  A Python dictionary keeps its keys in insertion order; writing an existing key replaces
  the value where the key stands. \<open>dict_of\<close> is the comprehension
  \<open>{path: q for path, q in flattened}\<close>.
\<close>

fun dict_set :: "'k \<Rightarrow> 'v \<Rightarrow> ('k \<times> 'v) list \<Rightarrow> ('k \<times> 'v) list" where
  "dict_set k v [] = [(k, v)]"
| "dict_set k v (p # ps) = (if fst p = k then (k, v) # ps else p # dict_set k v ps)"

definition dict_of :: "('k \<times> 'v) list \<Rightarrow> ('k \<times> 'v) list" where
  "dict_of kvs = fold (\<lambda>kv d. dict_set (fst kv) (snd kv) d) kvs []"

text \<open>\<open>q_copy = q.copy(); q_copy[key] = v\<close> for a dictionary \<open>q\<close>.\<close>

fun copy_with :: "pyval \<Rightarrow> string \<Rightarrow> pyval \<Rightarrow> pyval" where
  "copy_with (PDict d) key v = PDict (dict_set key v d)"
| "copy_with x key v = x"

text \<open>
  \<open>sep.join(parts)\<close> on a list of values raises \<open>TypeError\<close> unless every part is a string.
\<close>

definition py_join :: "string \<Rightarrow> pyval list \<Rightarrow> py_error + string" where
  "py_join sep parts =
     (if list_all is_str parts then Inr (join sep (map str_val parts)) else Inl TypeError)"

text \<open>
  \<open>str(name).startswith("_")\<close>: for a string it is the test on the string itself; the text
  of \<open>None\<close>, of a boolean, of a number, of a list and of a dictionary never starts with an
  underscore.
\<close>

fun starts_underscore :: "pyval \<Rightarrow> bool" where
  "starts_underscore (PStr s) = startswith s ''_''"
| "starts_underscore _ = False"

text \<open>
  \<^verbatim>\<open>
  def flatten_survey(survey, choices):
      cols = []; stack = []
      choice_map = {c.get("list_name"): c.get("children", [])
                    for c in choices if "list_name" in c}
      for q in survey:
          qtype = q.get("type", "")
          if qtype in ("begin_group", "end_group", "begin_repeat", "end_repeat"):
              if qtype.startswith("begin"):
                  stack.append(q.get("name", "group"))
              elif stack:
                  stack.pop()
              continue
          name = q.get("name")
          if not name or str(name).startswith("_"):
              continue
          path = "/".join(stack + [name])
          if qtype == "geopoint":
              for suffix in ["_latitude", "_longitude", "_altitude", "_precision"]:
                  cols.append((f"{path}{suffix}", q))
          elif qtype == "select_multiple":
              q_copy = q.copy()
              q_copy["_choice_list"] = q.get("select_from_list_name")
              cols.append((path, q_copy))
          else:
              cols.append((path, q))
      return cols
  \<close>
  \<open>choice_map\<close> is built before the loop and never read, but building it can raise.
  \<open>flatten_step\<close> is one turn of the loop on the pair of \<open>cols\<close> and \<open>stack\<close>;
  \<open>stack.pop()\<close> raises \<open>IndexError\<close> on an empty list.
\<close>

fun choice_map_loop ::
  "pyval list \<Rightarrow> (pyval \<times> pyval) list \<Rightarrow> py_error + (pyval \<times> pyval) list" where
  "choice_map_loop [] m = Inr m"
| "choice_map_loop (c # cs) m =
     (case py_contains ''list_name'' c of
        Inl e \<Rightarrow> Inl e
      | Inr present \<Rightarrow>
          if \<not> present then choice_map_loop cs m
          else
            (case dict_get c ''list_name'' PNone of
               Inl e \<Rightarrow> Inl e
             | Inr k \<Rightarrow>
                 (case dict_get c ''children'' (PList []) of
                    Inl e \<Rightarrow> Inl e
                  | Inr v \<Rightarrow>
                      if py_hashable k then choice_map_loop cs (dict_set k v m)
                      else Inl TypeError)))"

definition choice_map :: "pyval \<Rightarrow> py_error + (pyval \<times> pyval) list" where
  "choice_map choices =
     (case py_iter choices of Inl e \<Rightarrow> Inl e | Inr cs \<Rightarrow> choice_map_loop cs [])"

definition py_pop :: "'a list \<Rightarrow> py_error + 'a list" where
  "py_pop xs = (if xs = [] then Inl IndexError else Inr (butlast xs))"

definition flatten_step ::
  "pyval \<Rightarrow> (string \<times> pyval) list \<times> pyval list
     \<Rightarrow> py_error + (string \<times> pyval) list \<times> pyval list" where
  "flatten_step q st =
     (let cols = fst st; stack = snd st
      in case dict_get q ''type'' (PStr []) of
           Inl e \<Rightarrow> Inl e
         | Inr qtype \<Rightarrow>
             if qtype \<in> set [PStr ''begin_group'', PStr ''end_group'',
                             PStr ''begin_repeat'', PStr ''end_repeat''] then
               (if startswith (str_val qtype) ''begin'' then
                  (case dict_get q ''name'' (PStr ''group'') of
                     Inl e \<Rightarrow> Inl e
                   | Inr n \<Rightarrow> Inr (cols, stack @ [n]))
                else if stack \<noteq> [] then
                  (case py_pop stack of Inl e \<Rightarrow> Inl e | Inr stack' \<Rightarrow> Inr (cols, stack'))
                else Inr (cols, stack))
             else
               (case dict_get q ''name'' PNone of
                  Inl e \<Rightarrow> Inl e
                | Inr name \<Rightarrow>
                    if \<not> py_truthy name \<or> starts_underscore name then Inr (cols, stack)
                    else
                      (case py_join ''/'' (stack @ [name]) of
                         Inl e \<Rightarrow> Inl e
                       | Inr path \<Rightarrow>
                           if qtype = PStr ''geopoint'' then
                             Inr (cols @ map (\<lambda>suffix. (path @ suffix, q))
                                    [''_latitude'', ''_longitude'', ''_altitude'', ''_precision''],
                                  stack)
                           else if qtype = PStr ''select_multiple'' then
                             (case dict_get q ''select_from_list_name'' PNone of
                                Inl e \<Rightarrow> Inl e
                              | Inr v \<Rightarrow>
                                  Inr (cols @ [(path, copy_with q ''_choice_list'' v)], stack))
                           else Inr (cols @ [(path, q)], stack))))"

fun flatten_loop ::
  "pyval list \<Rightarrow> (string \<times> pyval) list \<times> pyval list
     \<Rightarrow> py_error + (string \<times> pyval) list" where
  "flatten_loop [] st = Inr (fst st)"
| "flatten_loop (q # qs) st =
     (case flatten_step q st of Inl e \<Rightarrow> Inl e | Inr st' \<Rightarrow> flatten_loop qs st')"

definition flatten_survey :: "pyval \<Rightarrow> pyval \<Rightarrow> py_error + (string \<times> pyval) list" where
  "flatten_survey survey choices =
     (case choice_map choices of
        Inl e \<Rightarrow> Inl e
      | Inr m \<Rightarrow>
          (case py_iter survey of
             Inl e \<Rightarrow> Inl e
           | Inr qs \<Rightarrow> flatten_loop qs ([], [])))"

text \<open>
  \<^verbatim>\<open>
  def build_template_df(asset):
      content = asset.get("content", {})
      survey = content.get("survey", [])
      choices = content.get("choices", [])
      flattened = flatten_survey(survey, choices)
      headers = [c for c, _ in flattened]
      schema_map = {path: q for path, q in flattened}
      template = pd.DataFrame(columns=headers)
      for col in ["meta/instanceID", "_uuid", "_id"]:
          if col not in template.columns:
              template[col] = None
      return template, schema_map
  \<close>
  The template has no rows, so it is its list of column names.
\<close>

definition add_system_col :: "string \<Rightarrow> string list \<Rightarrow> string list" where
  "add_system_col col columns = (if col \<in> set columns then columns else columns @ [col])"

definition build_template_df ::
  "pyval \<Rightarrow> py_error + string list \<times> (string \<times> pyval) list" where
  "build_template_df asset =
     (case dict_get asset ''content'' (PDict []) of
        Inl e \<Rightarrow> Inl e
      | Inr content \<Rightarrow>
          (case dict_get content ''survey'' (PList []) of
             Inl e \<Rightarrow> Inl e
           | Inr survey \<Rightarrow>
               (case dict_get content ''choices'' (PList []) of
                  Inl e \<Rightarrow> Inl e
                | Inr choices \<Rightarrow>
                    (case flatten_survey survey choices of
                       Inl e \<Rightarrow> Inl e
                     | Inr flattened \<Rightarrow>
                         (let headers = map fst flattened;
                              schema_map = dict_of flattened;
                              template = fold add_system_col
                                           [''meta/instanceID'', ''_uuid'', ''_id''] headers
                          in Inr (template, schema_map))))))"

section \<open>XML generation (data_utils.py)\<close>

text \<open>
  A value of the schema map as \<open>row_to_xml\<close> meets it: a question dictionary with its
  string entries \<open>type\<close>, \<open>name\<close> and \<open>select_from_list_name\<close> (\<open>None\<close> for a key the
  dictionary does not have) and the entry \<open>_choice_list\<close> that \<open>flatten_survey\<close> writes into
  its copy of a select_multiple node (\<open>None\<close> while the key is absent, \<open>Some v\<close> once it is
  set to \<open>v\<close>). \<open>row_to_xml\<close> reads \<open>type\<close> only.
\<close>

record question =
  q_type :: "string option"
  q_name :: "string option"
  select_from_list_name :: "string option"
  choice_list :: "string option option"

text \<open>
  An \<open>ElementTree\<close> element: tag, attributes, text and children. \<open>find_child\<close> is
  \<open>node.find(tag)\<close> for a plain tag: the position of the first child with that tag. Path
  segments are taken to be plain tags, as the names of survey questions and groups are:
  not empty and free of the characters that \<open>find\<close> reads as path syntax.
  An element tests false in a boolean context when it has no children, which is what
  \<open>node.find(tag) or ET.SubElement(node, tag)\<close> looks at; \<open>find_truthy\<close> is the left
  operand of that \<open>or\<close> when it is taken.
\<close>

datatype xml = Element (tag: string) (attrib: "(string \<times> string) list")
                       (elem_text: "string option") (children: "xml list")

fun find_child :: "string \<Rightarrow> xml list \<Rightarrow> nat option" where
  "find_child p [] = None"
| "find_child p (c # cs) =
     (if tag c = p then Some 0 else map_option Suc (find_child p cs))"

definition find_truthy :: "xml \<Rightarrow> string \<Rightarrow> nat option" where
  "find_truthy node p =
     (case find_child p (children node) of
        None \<Rightarrow> None
      | Some i \<Rightarrow> if children (children node ! i) \<noteq> [] then Some i else None)"

definition set_children :: "xml \<Rightarrow> xml list \<Rightarrow> xml" where
  "set_children node cs = Element (tag node) (attrib node) (elem_text node) cs"

definition set_text :: "string \<Rightarrow> xml \<Rightarrow> xml" where
  "set_text v node = Element (tag node) (attrib node) (Some v) (children node)"

text \<open>\<open>ET.SubElement(parent, tag).text = value\<close>: a new last child of \<open>parent\<close>.\<close>

definition SubElement :: "xml \<Rightarrow> string \<Rightarrow> string \<Rightarrow> xml" where
  "SubElement parent p v = set_children parent (children parent @ [Element p [] (Some v) []])"

text \<open>
  \<^verbatim>\<open>
  def ensure_nested(root, path):
      node = root
      for p in path:
          child = node.find(p)
          if child is None:
              child = ET.SubElement(node, p)
          node = child
      return node
  \<close>
  The source returns a reference into the tree and the caller mutates the element it
  refers to. The model takes that mutation as the function \<open>k\<close> and returns the tree in
  which the element \<open>ensure_nested\<close> reaches has been replaced by \<open>k\<close> of it.
\<close>

fun ensure_nested :: "xml \<Rightarrow> string list \<Rightarrow> (xml \<Rightarrow> xml) \<Rightarrow> xml" where
  "ensure_nested node [] k = k node"
| "ensure_nested node (p # path) k =
     (case find_child p (children node) of
        None \<Rightarrow>
          set_children node (children node @ [ensure_nested (Element p [] None []) path k])
      | Some i \<Rightarrow>
          set_children node ((children node)[i := ensure_nested (children node ! i) path k]))"

text \<open>
  The body of the loop of \<open>row_to_xml\<close> over \<open>schema_map.items()\<close>: \<open>field_value\<close> computes
  the variable \<open>value\<close> (\<open>None\<close> when the field is left out), \<open>encode_field\<close> adds the leaf.
  \<^verbatim>\<open>
      qtype = q_info.get("type")
      if qtype == "geopoint":
          lat = str(row.get(f"{path}_latitude", "")).strip()
          lon = str(row.get(f"{path}_longitude", "")).strip()
          if lat and lon:
              alt = str(row.get(f"{path}_altitude", "0")).strip()
              acc = str(row.get(f"{path}_precision", "0.0")).strip()
              value = f"{lat} {lon} {alt} {acc}"
      elif qtype == "select_multiple":
          if path in row and isinstance(row[path], str):
              tokens = [t.strip() for t in row[path].replace(",", " ").split() if t.strip()]
              if tokens:
                  value = " ".join(tokens)
      else:
          if path in row and pd.notna(val := row[path]):
              val_str = str(val).strip()
              if val_str:
                  value = val_str
      if value is not None:
          parts = path.split("/")
          parent = ensure_nested(root, parts[:-1])
          ET.SubElement(parent, parts[-1]).text = value
  \<close>
\<close>

definition geopoint_value :: "row \<Rightarrow> string \<Rightarrow> string option" where
  "geopoint_value row path =
     (let lat = strip (str_of_cell (row_get_default row (path @ ''_latitude'') (Str [])));
          lon = strip (str_of_cell (row_get_default row (path @ ''_longitude'') (Str [])))
      in if lat \<noteq> [] \<and> lon \<noteq> [] then
           (let alt = strip (str_of_cell (row_get_default row (path @ ''_altitude'') (Str ''0'')));
                acc = strip (str_of_cell (row_get_default row (path @ ''_precision'') (Str ''0.0'')))
            in Some (lat @ '' '' @ lon @ '' '' @ alt @ '' '' @ acc))
         else None)"

definition select_multiple_value :: "row \<Rightarrow> string \<Rightarrow> string option" where
  "select_multiple_value row path =
     (case row path of
        Some (Str s) \<Rightarrow>
          (let tokens = map strip (filter (\<lambda>t. strip t \<noteq> []) (py_split (replace_all '','' '' '' s)))
           in if tokens \<noteq> [] then Some (join '' '' tokens) else None)
      | _ \<Rightarrow> None)"

definition plain_value :: "row \<Rightarrow> string \<Rightarrow> string option" where
  "plain_value row path =
     (case row path of
        None \<Rightarrow> None
      | Some val \<Rightarrow>
          if notna val then
            (let val_str = strip (str_of_cell val)
             in if val_str \<noteq> [] then Some val_str else None)
          else None)"

definition field_value :: "row \<Rightarrow> string \<Rightarrow> question \<Rightarrow> string option" where
  "field_value row path q_info =
     (if q_type q_info = Some ''geopoint'' then geopoint_value row path
      else if q_type q_info = Some ''select_multiple'' then select_multiple_value row path
      else plain_value row path)"

definition add_leaf :: "xml \<Rightarrow> string \<Rightarrow> string \<Rightarrow> xml" where
  "add_leaf root path v =
     (let parts = split_char CHR ''/'' path
      in ensure_nested root (butlast parts) (\<lambda>parent. SubElement parent (last parts) v))"

definition encode_field :: "row \<Rightarrow> string \<times> question \<Rightarrow> xml \<Rightarrow> xml" where
  "encode_field row item root =
     (case field_value row (fst item) (snd item) of
        None \<Rightarrow> root
      | Some v \<Rightarrow> add_leaf root (fst item) v)"

definition encode_fields :: "row \<Rightarrow> string \<Rightarrow> (string \<times> question) list \<Rightarrow> xml" where
  "encode_fields row form_id schema_map =
     fold (encode_field row) schema_map (Element form_id [(''id'', form_id)] None [])"

text \<open>
  The end of \<open>row_to_xml\<close>:
  \<^verbatim>\<open>
      meta = root.find("meta") or ET.SubElement(root, "meta")
      instance_id = meta.find("instanceID") or ET.SubElement(meta, "instanceID")
      instance_id.text = f"uuid:{uuid.uuid4()}"
      if deprecated_id:
          ET.SubElement(meta, "deprecatedID").text = ensure_uuid_prefix(deprecated_id)
      return ET.tostring(root, encoding="utf-8", xml_declaration=True)
  \<close>
  The random identifier is the argument \<open>uuid4\<close> (the text of \<open>uuid.uuid4()\<close>), and the
  result is the tree that is serialised.
\<close>

definition set_instance_id :: "string \<Rightarrow> xml \<Rightarrow> xml" where
  "set_instance_id uuid4 meta =
     (case find_truthy meta ''instanceID'' of
        Some j \<Rightarrow> set_children meta ((children meta)[j := set_text (''uuid:'' @ uuid4) (children meta ! j)])
      | None \<Rightarrow> SubElement meta ''instanceID'' (''uuid:'' @ uuid4))"

definition add_deprecated_id :: "string option \<Rightarrow> xml \<Rightarrow> xml" where
  "add_deprecated_id deprecated_id meta =
     (case deprecated_id of
        None \<Rightarrow> meta
      | Some d \<Rightarrow> if d \<noteq> [] then SubElement meta ''deprecatedID'' (ensure_uuid_prefix d) else meta)"

definition fill_meta :: "string option \<Rightarrow> string \<Rightarrow> xml \<Rightarrow> xml" where
  "fill_meta deprecated_id uuid4 meta = add_deprecated_id deprecated_id (set_instance_id uuid4 meta)"

definition add_meta :: "string option \<Rightarrow> string \<Rightarrow> xml \<Rightarrow> xml" where
  "add_meta deprecated_id uuid4 root =
     (case find_truthy root ''meta'' of
        Some i \<Rightarrow>
          set_children root ((children root)[i := fill_meta deprecated_id uuid4 (children root ! i)])
      | None \<Rightarrow>
          set_children root
            (children root @ [fill_meta deprecated_id uuid4 (Element ''meta'' [] None [])]))"

definition row_to_xml ::
  "row \<Rightarrow> string \<Rightarrow> (string \<times> question) list \<Rightarrow> string option \<Rightarrow> string \<Rightarrow> xml" where
  "row_to_xml row form_id schema_map deprecated_id uuid4 =
     add_meta deprecated_id uuid4 (encode_fields row form_id schema_map)"

section \<open>Predicates and observers used in the statements\<close>

text \<open>
  Names for the tests of \<open>flatten_survey\<close>: a leaf is kept when its name is a string that is
  not empty and does not start with an underscore; a node is a group marker when its type
  is one of the four \<open>begin\<close>/\<open>end\<close> tags. \<open>named_node\<close> holds of a question dictionary whose
  \<open>name\<close> is a string or absent, and \<open>col_count\<close> is the number of columns a node stands
  for: four for a kept geopoint, one for any other kept leaf, none otherwise.
\<close>

definition valid_name :: "string \<Rightarrow> bool" where
  "valid_name n \<longleftrightarrow> n \<noteq> [] \<and> \<not> startswith n ''_''"

definition group_marker :: "pyval \<Rightarrow> bool" where
  "group_marker t \<longleftrightarrow>
     t \<in> {PStr ''begin_group'', PStr ''end_group'', PStr ''begin_repeat'', PStr ''end_repeat''}"

definition node_type :: "(string \<times> pyval) list \<Rightarrow> pyval" where
  "node_type d = (case map_of d ''type'' of None \<Rightarrow> PStr [] | Some t \<Rightarrow> t)"

definition named_node :: "pyval \<Rightarrow> bool" where
  "named_node q =
     (case q of
        PDict d \<Rightarrow> (case map_of d ''name'' of None \<Rightarrow> True | Some n \<Rightarrow> is_str n)
      | _ \<Rightarrow> False)"

definition col_count :: "pyval \<Rightarrow> nat" where
  "col_count q =
     (case q of
        PDict d \<Rightarrow>
          if group_marker (node_type d) then 0
          else (case map_of d ''name'' of
                  Some (PStr n) \<Rightarrow>
                    if valid_name n then (if node_type d = PStr ''geopoint'' then 4 else 1) else 0
                | _ \<Rightarrow> 0)
      | _ \<Rightarrow> 0)"

text \<open>
  Observing the tree. \<open>elems_at node q\<close> lists the elements reached from \<open>node\<close> along the
  tag path \<open>q\<close>, in document order (what \<open>node.findall("a/b/c")\<close> returns), and \<open>texts_at\<close>
  their texts. \<open>insert_leaf node ps l v\<close> is the last step of the loop body: the leaf \<open>l\<close>
  with text \<open>v\<close> added under the element that \<open>ensure_nested\<close> reaches along \<open>ps\<close>.
\<close>

fun elems_at :: "xml \<Rightarrow> string list \<Rightarrow> xml list" where
  "elems_at node [] = [node]"
| "elems_at node (p # q) = concat (map (\<lambda>c. elems_at c q) (filter (\<lambda>c. tag c = p) (children node)))"

definition texts_at :: "xml \<Rightarrow> string list \<Rightarrow> string option list" where
  "texts_at node q = map elem_text (elems_at node q)"

definition insert_leaf :: "xml \<Rightarrow> string list \<Rightarrow> string \<Rightarrow> string \<Rightarrow> xml" where
  "insert_leaf node ps l v = ensure_nested node ps (\<lambda>parent. SubElement parent l v)"

text \<open>
  The tokens of a select_multiple cell as the specification words them: cut the cell at
  every comma and at every whitespace character, trim each piece, drop the empty pieces.
  \<open>select_multiple_value\<close> above is the code; this definition is what it is compared with.
\<close>

definition spec_select_tokens :: "string \<Rightarrow> string list" where
  "spec_select_tokens s =
     filter (\<lambda>t. t \<noteq> []) (map strip (split_on (\<lambda>c. c = CHR '','' \<or> is_space c) s))"

section \<open>Facts about stripping\<close>

lemma is_space_simps [simp]:
  "\<not> is_space CHR ''u''" "\<not> is_space CHR '':''" "is_space CHR '' ''" "\<not> is_space CHR '',''"
  by (simp_all add: is_space_def)

lemma rstrip_Nil [simp]: "rstrip [] = []"
  by (simp add: rstrip_def)

lemma rstrip_snoc: "rstrip (s @ [c]) = (if is_space c then rstrip s else s @ [c])"
  by (simp add: rstrip_def)

lemma rstrip_append_nonblank:
  "rstrip t \<noteq> [] \<Longrightarrow> rstrip (s @ t) = s @ rstrip t"
  by (induction t rule: rev_induct) (auto simp: rstrip_snoc simp flip: append_assoc)

lemma rstrip_append_blank:
  "rstrip t = [] \<Longrightarrow> rstrip (s @ t) = rstrip s"
  by (induction t rule: rev_induct) (auto simp: rstrip_snoc simp flip: append_assoc split: if_splits)

lemma rstrip_idem [simp]: "rstrip (rstrip s) = rstrip s"
  by (induction s rule: rev_induct) (auto simp: rstrip_snoc)

lemma lstrip_idem [simp]: "lstrip (lstrip s) = lstrip s"
  by (simp add: lstrip_def dropWhile_idem)

lemma hd_rstrip: "rstrip s \<noteq> [] \<Longrightarrow> hd (rstrip s) = hd s"
  by (induction s rule: rev_induct) (auto simp: rstrip_snoc hd_append split: if_splits)

lemma lstrip_nonspace_hd: "s \<noteq> [] \<Longrightarrow> \<not> is_space (hd s) \<Longrightarrow> lstrip s = s"
  by (cases s) (simp_all add: lstrip_def)

lemma hd_lstrip: "lstrip s \<noteq> [] \<Longrightarrow> \<not> is_space (hd (lstrip s))"
  unfolding lstrip_def by (metis hd_dropWhile)

lemma lstrip_rstrip: "lstrip (rstrip (lstrip s)) = rstrip (lstrip s)"
proof (cases "rstrip (lstrip s) = []")
  case True
  then show ?thesis by (simp add: lstrip_def)
next
  case False
  then have ne: "lstrip s \<noteq> []" by auto
  have "hd (rstrip (lstrip s)) = hd (lstrip s)" using False by (rule hd_rstrip)
  then have "\<not> is_space (hd (rstrip (lstrip s)))" using hd_lstrip [OF ne] by simp
  with False show ?thesis by (rule lstrip_nonspace_hd)
qed

lemma strip_idem [simp]: "strip (strip s) = strip s"
  by (simp add: strip_def lstrip_rstrip)

lemma strip_uuid_append: "strip (''uuid:'' @ t) = ''uuid:'' @ rstrip t"
proof -
  have l: "lstrip (''uuid:'' @ t) = ''uuid:'' @ t" by (simp add: lstrip_def)
  show ?thesis
  proof (cases "rstrip t = []")
    case True
    have "rstrip (''uuid:'' @ t) = rstrip ''uuid:''" using True by (rule rstrip_append_blank)
    also have "\<dots> = ''uuid:''" by (simp add: rstrip_def)
    finally show ?thesis using True l by (simp add: strip_def)
  next
    case False
    then show ?thesis using l rstrip_append_nonblank [OF False, of "''uuid:''"]
      by (simp add: strip_def)
  qed
qed

lemma startswith_uuid_append [simp]: "startswith (''uuid:'' @ t) ''uuid:''"
  by (simp add: startswith_def)

lemma startswith_uuid_decomp: "startswith s ''uuid:'' \<Longrightarrow> \<exists>t. s = ''uuid:'' @ t"
  unfolding startswith_def by (metis append_take_drop_id)

lemma ensure_uuid_prefix_fixed:
  "ensure_uuid_prefix (''uuid:'' @ rstrip t) = ''uuid:'' @ rstrip t"
  using strip_uuid_append [of "rstrip t"] by (simp add: ensure_uuid_prefix_def startswith_def)

lemma strip_rstrip_strip [simp]: "rstrip (strip s) = strip s"
  by (simp add: strip_def)

section \<open>C1: round trip of ID normalisation\<close>

lemma ensure_uuid_prefix_idem:
  "ensure_uuid_prefix (ensure_uuid_prefix t) = ensure_uuid_prefix t"
proof (cases "t = []")
  case True
  then show ?thesis by (simp add: ensure_uuid_prefix_def)
next
  case False
  show ?thesis
  proof (cases "startswith (strip t) ''uuid:''")
    case True
    then obtain r where r: "strip t = ''uuid:'' @ r" using startswith_uuid_decomp by blast
    have "rstrip (strip t) = strip t" by simp
    then have "''uuid:'' @ rstrip r = ''uuid:'' @ r"
      using r strip_uuid_append [of r] strip_idem [of t] by simp
    then have rr: "rstrip r = r" by simp
    have "ensure_uuid_prefix t = ''uuid:'' @ rstrip r"
      using False True r rr by (simp add: ensure_uuid_prefix_def)
    then show ?thesis by (simp only: ensure_uuid_prefix_fixed)
  next
    case nopre: False
    have "ensure_uuid_prefix t = ''uuid:'' @ rstrip (strip t)"
      using False nopre by (simp add: ensure_uuid_prefix_def Let_def)
    then show ?thesis by (simp only: ensure_uuid_prefix_fixed)
  qed
qed

lemma rstrip_Cons:
  "rstrip (c # t) = (if rstrip t = [] then (if is_space c then [] else [c]) else c # rstrip t)"
proof (cases "rstrip t = []")
  case True
  have "rstrip ([c] @ t) = rstrip [c]" using True by (rule rstrip_append_blank)
  then show ?thesis using True by (simp add: rstrip_def)
next
  case False
  have "rstrip ([c] @ t) = [c] @ rstrip t" using False by (rule rstrip_append_nonblank)
  then show ?thesis using False by simp
qed

lemma lstrip_Cons: "lstrip (c # t) = (if is_space c then lstrip t else c # t)"
  by (simp add: lstrip_def)

lemma strip_commute: "rstrip (lstrip t) = lstrip (rstrip t)"
  by (induction t) (auto simp: rstrip_Cons lstrip_Cons lstrip_def)

lemma length_strip_le: "length (strip t) \<le> length (rstrip t)"
proof -
  have "strip t = lstrip (rstrip t)" by (simp add: strip_def strip_commute)
  then show ?thesis by (simp add: lstrip_def length_dropWhile_le)
qed

lemma ensure_uuid_prefix_prefixed:
  "ensure_uuid_prefix (''uuid:'' @ t) = ''uuid:'' @ rstrip t"
  using strip_uuid_append [of t] by (simp add: ensure_uuid_prefix_def startswith_def)

lemma ensure_uuid_prefix_nonempty:
  "t \<noteq> [] \<Longrightarrow> ensure_uuid_prefix t =
     (if startswith (strip t) ''uuid:'' then strip t else ''uuid:'' @ strip t)"
  by (simp add: ensure_uuid_prefix_def)

text \<open>
  C1 (as amended). For every string \<open>t\<close>, normalising twice is normalising once. Normalising
  \<open>"uuid:" + t\<close> gives the same as normalising \<open>t\<close> exactly when \<open>t\<close> is not empty, stripping
  \<open>t\<close> removes nothing at its front (\<open>t\<close> has no leading whitespace, or is whitespace only)
  and the stripped \<open>t\<close> does not itself start with \<open>"uuid:"\<close>. The empty string is returned
  as it is by the guard \<open>if not x\<close>, while \<open>"uuid:"\<close> stays \<open>"uuid:"\<close>; whitespace after the
  prefix is kept, since only the two ends of the argument are stripped.
\<close>

theorem ensure_uuid_prefix_roundtrip:
  "ensure_uuid_prefix (ensure_uuid_prefix t) = ensure_uuid_prefix t \<and>
   (ensure_uuid_prefix (''uuid:'' @ t) = ensure_uuid_prefix t
      \<longleftrightarrow> t \<noteq> [] \<and> rstrip t = strip t \<and> \<not> startswith (strip t) ''uuid:'')"
proof
  show "ensure_uuid_prefix (ensure_uuid_prefix t) = ensure_uuid_prefix t"
    by (rule ensure_uuid_prefix_idem)
next
  show "ensure_uuid_prefix (''uuid:'' @ t) = ensure_uuid_prefix t
      \<longleftrightarrow> t \<noteq> [] \<and> rstrip t = strip t \<and> \<not> startswith (strip t) ''uuid:''"
  proof (cases "t = []")
    case True
    then show ?thesis
      by (simp add: ensure_uuid_prefix_def strip_def lstrip_def rstrip_def startswith_def)
  next
    case ne: False
    show ?thesis
    proof (cases "startswith (strip t) ''uuid:''")
      case True
      have "length (strip t) < length (''uuid:'' @ rstrip t)"
        using length_strip_le [of t] by simp
      then have "''uuid:'' @ rstrip t \<noteq> strip t" by (metis less_irrefl)
      then show ?thesis using ne True
        by (simp only: ensure_uuid_prefix_prefixed ensure_uuid_prefix_nonempty [OF ne] if_True) simp
    next
      case False
      then show ?thesis using ne
        by (simp only: ensure_uuid_prefix_prefixed ensure_uuid_prefix_nonempty [OF ne] if_False) simp
    qed
  qed
qed

text \<open>The token \<open>"abc"\<close> meets the three conditions, so both forms normalise alike.\<close>

theorem ensure_uuid_prefix_roundtrip_witness:
  "ensure_uuid_prefix (''uuid:'' @ ''abc'') = ensure_uuid_prefix ''abc''"
proof -
  have "''abc'' \<noteq> [] \<and> rstrip ''abc'' = strip ''abc'' \<and> \<not> startswith (strip ''abc'') ''uuid:''"
    by (simp add: strip_def lstrip_def rstrip_def startswith_def is_space_def)
  then show ?thesis using ensure_uuid_prefix_roundtrip [of "''abc''"] by blast
qed

text \<open>
  The unrestricted second equation fails on the empty token and on a token with leading
  whitespace.
\<close>

theorem ensure_uuid_prefix_roundtrip_counterexample:
  "ensure_uuid_prefix (''uuid:'' @ []) \<noteq> ensure_uuid_prefix [] \<and>
   ensure_uuid_prefix (''uuid:'' @ '' a'') \<noteq> ensure_uuid_prefix '' a''"
  by (simp add: ensure_uuid_prefix_def strip_def lstrip_def rstrip_def startswith_def is_space_def)

section \<open>C9: the existing-ID set\<close>

lemma replace_all_absent:
  "old \<noteq> [] \<Longrightarrow> \<not> occurs old s \<Longrightarrow> replace_all old new s = s"
proof (induction s)
  case Nil
  then show ?case by (simp add: replace_all.simps)
next
  case (Cons c cs)
  then have "replace_all old new cs = cs" and "\<not> startswith (c # cs) old" by simp_all
  then show ?case using Cons.prems(1) by (subst replace_all.simps) simp
qed

lemma replace_all_uuid_prefixed:
  "\<not> occurs ''uuid:'' t \<Longrightarrow> replace_all ''uuid:'' [] (''uuid:'' @ t) = t"
proof -
  assume a: "\<not> occurs ''uuid:'' t"
  have "replace_all ''uuid:'' [] (''uuid:'' @ t) = replace_all ''uuid:'' [] t"
    by (subst replace_all.simps) (simp add: startswith_def)
  then show ?thesis using a by (simp add: replace_all_absent)
qed

lemma fold_add_id_forms_mono: "x \<in> ids \<Longrightarrow> x \<in> fold add_id_forms vals ids"
  by (induction vals arbitrary: ids) (simp_all add: add_id_forms_def Let_def)

lemma fold_add_id_forms_mem:
  "v \<in> set vals \<Longrightarrow>
     ensure_uuid_prefix (strip (str_of_cell v)) \<in> fold add_id_forms vals ids \<and>
     replace_all ''uuid:'' [] (strip (str_of_cell v)) \<in> fold add_id_forms vals ids"
proof (induction vals arbitrary: ids)
  case Nil
  then show ?case by simp
next
  case (Cons a vals)
  show ?case
  proof (cases "v = a")
    case True
    have "ensure_uuid_prefix (strip (str_of_cell v)) \<in> add_id_forms a ids"
      and "replace_all ''uuid:'' [] (strip (str_of_cell v)) \<in> add_id_forms a ids"
      using True by (simp_all add: add_id_forms_def Let_def)
    then show ?thesis by (simp add: fold_add_id_forms_mono)
  next
    case False
    then have "v \<in> set vals" using Cons.prems by simp
    then show ?thesis using Cons.IH by simp
  qed
qed

lemma strip_fixed_rstrip: "strip t = t \<Longrightarrow> rstrip t = t"
  by (metis strip_rstrip_strip)




section \<open>C2: update-target resolution\<close>

lemma strip_Nil [simp]: "strip [] = []"
  by (simp add: strip_def lstrip_def)

lemma ensure_uuid_prefix_strip:
  "strip s \<noteq> [] \<Longrightarrow> ensure_uuid_prefix (strip s) = ensure_uuid_prefix s"
  by (cases "s = []") (auto simp: ensure_uuid_prefix_def)

lemma ensure_uuid_prefix_startswith:
  "s \<noteq> [] \<Longrightarrow> startswith (ensure_uuid_prefix s) ''uuid:''"
  by (simp add: ensure_uuid_prefix_def Let_def) (simp add: startswith_def)

lemma id_lookup_unique:
  assumes "notna (row_get row ''_id'')"
    and "filter (\<lambda>e. col_id e = row_get row ''_id'') df = [e]"
  shows "id_lookup row (Some df) = Inr (Some (ensure_uuid_prefix (str_of_cell (col_instanceID e))))"
proof -
  obtain rid where rid: "row ''_id'' = Some rid"
    using assms(1) by (cases "row ''_id''") (auto simp: row_get_def notna_def)
  then have g: "row_get row ''_id'' = rid" by (simp add: row_get_def)
  have ne: "df \<noteq> []" using assms(2) by auto
  show ?thesis using assms ne rid g
    by (simp add: id_lookup_def row_index_def iloc_def)
qed

lemma id_lookup_none:
  assumes "\<not> notna (row_get row ''_id'') \<or> tbl = None \<or>
           (\<exists>df. tbl = Some df \<and> length (filter (\<lambda>e. col_id e = row_get row ''_id'') df) \<noteq> 1)"
  shows "id_lookup row tbl = Inr None"
proof (cases tbl)
  case None
  then show ?thesis by (simp add: id_lookup_def)
next
  case (Some df)
  show ?thesis
  proof (cases "notna (row_get row ''_id'') \<and> df \<noteq> []")
    case True
    then obtain rid where rid: "row ''_id'' = Some rid"
      by (cases "row ''_id''") (auto simp: row_get_def notna_def)
    then have g: "row_get row ''_id'' = rid" by (simp add: row_get_def)
    have "length (filter (\<lambda>e. col_id e = rid) df) \<noteq> 1" using assms Some True g by auto
    then show ?thesis using Some True rid by (simp add: id_lookup_def row_index_def)
  next
    case False
    then show ?thesis using Some by (auto simp: id_lookup_def)
  qed
qed

lemma id_lookup_total: "\<exists>r. id_lookup row tbl = Inr r"
proof (cases tbl)
  case None
  then show ?thesis by (simp add: id_lookup_def)
next
  case (Some df)
  show ?thesis
  proof (cases "notna (row_get row ''_id'') \<and> df \<noteq> []")
    case True
    then obtain rid where rid: "row ''_id'' = Some rid"
      by (cases "row ''_id''") (auto simp: row_get_def notna_def)
    show ?thesis using Some True rid
      by (auto simp: id_lookup_def row_index_def iloc_def Let_def)
  next
    case False
    then show ?thesis using Some by (auto simp: id_lookup_def)
  qed
qed




section \<open>Facts about the element tree\<close>

lemma find_child_None: "find_child p cs = None \<longleftrightarrow> filter (\<lambda>c. tag c = p) cs = []"
  by (induction cs) auto

lemma find_child_Some:
  "find_child p cs = Some i \<Longrightarrow>
   \<exists>xs c ys. cs = xs @ c # ys \<and> i = length xs \<and> tag c = p \<and> filter (\<lambda>c. tag c = p) xs = []"
proof (induction cs arbitrary: i)
  case Nil
  then show ?case by simp
next
  case (Cons a cs)
  show ?case
  proof (cases "tag a = p")
    case True
    then have "i = 0" using Cons.prems by simp
    then show ?thesis using True by (intro exI [of _ "[]"]) auto
  next
    case False
    then obtain j where j: "find_child p cs = Some j" "i = Suc j" using Cons.prems by auto
    from Cons.IH [OF j(1)] obtain xs c ys where
      "cs = xs @ c # ys" "j = length xs" "tag c = p" "filter (\<lambda>c. tag c = p) xs = []" by blast
    then show ?thesis using False j(2)
      by (intro exI [of _ "a # xs"] exI [of _ c] exI [of _ ys]) simp
  qed
qed

lemma children_set_children [simp]: "children (set_children n cs) = cs"
  and tag_set_children [simp]: "tag (set_children n cs) = tag n"
  and text_set_children [simp]: "elem_text (set_children n cs) = elem_text n"
  by (simp_all add: set_children_def)

lemma SubElement_simps [simp]:
  "children (SubElement n l v) = children n @ [Element l [] (Some v) []]"
  "tag (SubElement n l v) = tag n"
  "elem_text (SubElement n l v) = elem_text n"
  by (simp_all add: SubElement_def)

lemma ensure_nested_tag:
  "(\<And>n. tag (k n) = tag n) \<Longrightarrow> tag (ensure_nested node ps k) = tag node"
  by (cases ps) (auto split: option.splits)

lemma ensure_nested_text:
  "(\<And>n. elem_text (k n) = elem_text n) \<Longrightarrow> elem_text (ensure_nested node ps k) = elem_text node"
  by (cases ps) (auto split: option.splits)

lemma insert_leaf_tag [simp]: "tag (insert_leaf node ps l v) = tag node"
  by (simp add: insert_leaf_def ensure_nested_tag)

lemma insert_leaf_text [simp]: "elem_text (insert_leaf node ps l v) = elem_text node"
  by (simp add: insert_leaf_def ensure_nested_text)

lemma insert_leaf_Nil: "children (insert_leaf node [] l v) = children node @ [Element l [] (Some v) []]"
  by (simp add: insert_leaf_def)

lemma insert_leaf_Cons_None:
  "find_child p (children node) = None \<Longrightarrow>
   children (insert_leaf node (p # ps) l v)
     = children node @ [insert_leaf (Element p [] None []) ps l v]"
  by (simp add: insert_leaf_def)

lemma insert_leaf_Cons_Some:
  assumes "find_child p (children node) = Some i"
  shows "\<exists>xs c ys. children node = xs @ c # ys \<and> tag c = p \<and> filter (\<lambda>c. tag c = p) xs = [] \<and>
           children (insert_leaf node (p # ps) l v) = xs @ insert_leaf c ps l v # ys"
proof -
  from find_child_Some [OF assms] obtain xs c ys where
    d: "children node = xs @ c # ys" "i = length xs" "tag c = p" "filter (\<lambda>c. tag c = p) xs = []"
    by blast
  have "children (insert_leaf node (p # ps) l v) = xs @ insert_leaf c ps l v # ys"
    using assms d by (simp add: insert_leaf_def)
  then show ?thesis using d by blast
qed

lemma elems_at_leaf: "q \<noteq> [] \<Longrightarrow> elems_at (Element p a t []) q = []"
  by (cases q) simp_all

lemma texts_at_Cons:
  "texts_at node (p # q) = concat (map (\<lambda>c. texts_at c q) (filter (\<lambda>c. tag c = p) (children node)))"
  by (simp add: texts_at_def map_concat comp_def)

lemma texts_at_Nil [simp]: "texts_at node [] = [elem_text node]"
  by (simp add: texts_at_def)

lemma texts_at_leaf: "q \<noteq> [] \<Longrightarrow> texts_at (Element p a t []) q = []"
  by (simp add: texts_at_def elems_at_leaf)

lemma insert_leaf_elsewhere:
  "\<not> prefix q (ps @ [l]) \<Longrightarrow> texts_at (insert_leaf node ps l v) q = texts_at node q"
proof (induction ps arbitrary: node q)
  case Nil
  then obtain p' qs where q: "q = p' # qs" by (cases q) auto
  have "l = p' \<Longrightarrow> qs \<noteq> []" using Nil q by auto
  then show ?case by (simp add: q texts_at_Cons insert_leaf_Nil texts_at_leaf)
next
  case (Cons p ps)
  then obtain p' qs where q: "q = p' # qs" by (cases q) auto
  show ?case
  proof (cases "p' = p")
    case False
    show ?thesis
    proof (cases "find_child p (children node)")
      case None
      then show ?thesis using False by (simp add: q texts_at_Cons insert_leaf_Cons_None)
    next
      case (Some i)
      from insert_leaf_Cons_Some [OF Some, of ps l v] obtain xs c ys where
        "children node = xs @ c # ys" "tag c = p"
        "children (insert_leaf node (p # ps) l v) = xs @ insert_leaf c ps l v # ys" by blast
      then show ?thesis using False by (simp add: q texts_at_Cons)
    qed
  next
    case True
    then have np: "\<not> prefix qs (ps @ [l])" using Cons.prems q by simp
    then have qne: "qs \<noteq> []" by auto
    show ?thesis
    proof (cases "find_child p (children node)")
      case None
      have "texts_at (insert_leaf (Element p [] None []) ps l v) qs = []"
        using Cons.IH [OF np] qne by (simp add: texts_at_leaf)
      then show ?thesis using None True by (simp add: q texts_at_Cons insert_leaf_Cons_None)
    next
      case (Some i)
      from insert_leaf_Cons_Some [OF Some, of ps l v] obtain xs c ys where
        "children node = xs @ c # ys" "tag c = p"
        "children (insert_leaf node (p # ps) l v) = xs @ insert_leaf c ps l v # ys" by blast
      then show ?thesis using True Cons.IH [OF np, of c] by (simp add: q texts_at_Cons)
    qed
  qed
qed

lemma insert_leaf_persist:
  "x \<in> set (texts_at node q) \<Longrightarrow> x \<in> set (texts_at (insert_leaf node ps l v) q)"
proof (induction ps arbitrary: node q)
  case Nil
  then show ?case by (cases q) (auto simp: texts_at_Cons insert_leaf_Nil)
next
  case (Cons p ps)
  show ?case
  proof (cases q)
    case Nil
    then show ?thesis using Cons.prems by simp
  next
    case q: (Cons p' qs)
    show ?thesis
    proof (cases "find_child p (children node)")
      case None
      then show ?thesis using Cons.prems by (auto simp: q texts_at_Cons insert_leaf_Cons_None)
    next
      case (Some i)
      from insert_leaf_Cons_Some [OF Some, of ps l v] obtain xs c ys where
        d: "children node = xs @ c # ys" "tag c = p"
        "children (insert_leaf node (p # ps) l v) = xs @ insert_leaf c ps l v # ys" by blast
      show ?thesis using Cons.prems Cons.IH [of c qs] d by (auto simp: q texts_at_Cons)
    qed
  qed
qed

lemma insert_leaf_present: "Some v \<in> set (texts_at (insert_leaf node ps l v) (ps @ [l]))"
proof (induction ps arbitrary: node)
  case Nil
  show ?case by (simp add: texts_at_Cons insert_leaf_Nil)
next
  case (Cons p ps)
  show ?case
  proof (cases "find_child p (children node)")
    case None
    then show ?thesis using Cons.IH by (simp add: texts_at_Cons insert_leaf_Cons_None)
  next
    case (Some i)
    from insert_leaf_Cons_Some [OF Some, of ps l v] obtain xs c ys where
      d: "children node = xs @ c # ys" "tag c = p"
      "children (insert_leaf node (p # ps) l v) = xs @ insert_leaf c ps l v # ys" by blast
    show ?thesis using Cons.IH [of c] d by (simp add: texts_at_Cons)
  qed
qed

lemma length_texts_at [simp]: "length (texts_at node q) = length (elems_at node q)"
  by (simp add: texts_at_def)

lemma filter_le_1_decomp:
  assumes "length (filter P (xs @ c # ys)) \<le> 1" "P c"
  shows "filter P xs = []" "filter P ys = []"
  using assms by (auto simp: filter_empty_conv)

lemma concat_map_concat: "concat (map (\<lambda>c. concat (f c)) xs) = concat (concat (map f xs))"
  by (induction xs) simp_all

lemma elems_at_snoc:
  "elems_at t (q @ [l]) = concat (map (\<lambda>e. filter (\<lambda>c. tag c = l) (children e)) (elems_at t q))"
proof (induction q arbitrary: t)
  case Nil
  show ?case by (simp add: concat_map_singleton)
next
  case (Cons p q)
  show ?case by (simp add: Cons.IH map_concat comp_def concat_map_concat)
qed

lemma insert_leaf_along:
  assumes "1 \<le> n" "n \<le> length ps"
    and "\<And>k. 1 \<le> k \<Longrightarrow> k \<le> n \<Longrightarrow> length (elems_at node (take k ps)) \<le> 1"
  shows "length (elems_at (insert_leaf node ps l v) (take n ps)) = 1"
  using assms
proof (induction ps arbitrary: node n)
  case Nil
  then show ?case by simp
next
  case (Cons p ps)
  obtain m where n: "n = Suc m" using Cons.prems(1) by (cases n) auto
  have m: "m \<le> length ps" using Cons.prems(2) n by simp
  have one: "length (filter (\<lambda>c. tag c = p) (children node)) \<le> 1"
    using Cons.prems(3) [of 1] n by (simp add: concat_map_singleton)
  have rest: "length (concat (map (\<lambda>c. elems_at c (take k ps))
                 (filter (\<lambda>c. tag c = p) (children node)))) \<le> 1" if "k \<le> m" for k
    using Cons.prems(3) [of "Suc k"] that n by simp
  show ?case
  proof (cases "find_child p (children node)")
    case None
    then have f: "filter (\<lambda>c. tag c = p) (children node) = []" by (simp add: find_child_None)
    let ?new = "insert_leaf (Element p [] None []) ps l v"
    have "length (elems_at ?new (take m ps)) = 1"
    proof (cases "m = 0")
      case True
      then show ?thesis by simp
    next
      case False
      then have "1 \<le> m" by simp
      moreover have "length (elems_at (Element p [] None []) (take k ps)) \<le> 1"
        if "1 \<le> k" "k \<le> m" for k
      proof -
        have "take k ps \<noteq> []" using that m by auto
        then show ?thesis by (simp add: elems_at_leaf)
      qed
      ultimately show ?thesis using m by (intro Cons.IH) auto
    qed
    then show ?thesis using None f by (simp add: n insert_leaf_Cons_None)
  next
    case (Some i)
    from insert_leaf_Cons_Some [OF Some, of ps l v] obtain xs c ys where
      d: "children node = xs @ c # ys" "tag c = p"
      "children (insert_leaf node (p # ps) l v) = xs @ insert_leaf c ps l v # ys" by blast
    have one': "length (filter (\<lambda>c. tag c = p) (xs @ c # ys)) \<le> 1"
      using one unfolding d(1) .
    have fx: "filter (\<lambda>c. tag c = p) xs = []" and fy: "filter (\<lambda>c. tag c = p) ys = []"
      using filter_le_1_decomp [OF one' d(2)] by blast+
    have "length (elems_at (insert_leaf c ps l v) (take m ps)) = 1"
    proof (cases "m = 0")
      case True
      then show ?thesis by simp
    next
      case False
      then have "1 \<le> m" by simp
      moreover have "length (elems_at c (take k ps)) \<le> 1" if "1 \<le> k" "k \<le> m" for k
        using rest [of k] that d fx fy by simp
      ultimately show ?thesis using m by (intro Cons.IH) auto
    qed
    then show ?thesis using d fx fy by (simp add: n)
  qed
qed

section \<open>Facts about the loop over the schema map\<close>

lemma split_on_nonempty [simp]: "split_on P s \<noteq> []"
  by (induction s) (auto split: list.splits)

lemma split_char_nonempty [simp]: "split_char c s \<noteq> []"
  by (simp add: split_char_def)

lemma add_leaf_insert_leaf:
  "add_leaf root path v =
     insert_leaf root (butlast (split_char CHR ''/'' path)) (last (split_char CHR ''/'' path)) v"
  by (simp add: add_leaf_def insert_leaf_def Let_def)

lemma encode_field_None:
  "field_value row (fst item) (snd item) = None \<Longrightarrow> encode_field row item t = t"
  by (simp add: encode_field_def)

lemma encode_field_Some:
  "field_value row (fst item) (snd item) = Some v \<Longrightarrow>
   \<exists>ps l. split_char CHR ''/'' (fst item) = ps @ [l] \<and> encode_field row item t = insert_leaf t ps l v"
proof -
  assume a: "field_value row (fst item) (snd item) = Some v"
  let ?parts = "split_char CHR ''/'' (fst item)"
  have "?parts = butlast ?parts @ [last ?parts]" by simp
  moreover have "encode_field row item t = insert_leaf t (butlast ?parts) (last ?parts) v"
    using a by (simp add: encode_field_def add_leaf_insert_leaf)
  ultimately show ?thesis by blast
qed

lemma encode_field_elsewhere:
  assumes "field_value row (fst item) (snd item) \<noteq> None \<longrightarrow>
           \<not> prefix q (split_char CHR ''/'' (fst item))"
  shows "texts_at (encode_field row item t) q = texts_at t q"
proof (cases "field_value row (fst item) (snd item)")
  case None
  then show ?thesis by (simp add: encode_field_None)
next
  case (Some v)
  from encode_field_Some [OF Some, of t] obtain ps l where
    d: "split_char CHR ''/'' (fst item) = ps @ [l]" "encode_field row item t = insert_leaf t ps l v"
    by blast
  have "\<not> prefix q (ps @ [l])" using assms Some d(1) by simp
  then show ?thesis unfolding d(2) by (rule insert_leaf_elsewhere)
qed

lemma encode_fields_elsewhere:
  assumes "\<forall>item \<in> set schema. field_value row (fst item) (snd item) \<noteq> None \<longrightarrow>
             \<not> prefix q (split_char CHR ''/'' (fst item))"
  shows "texts_at (fold (encode_field row) schema t) q = texts_at t q"
  using assms
proof (induction schema arbitrary: t)
  case Nil
  show ?case by simp
next
  case (Cons item schema)
  have "texts_at (fold (encode_field row) schema (encode_field row item t)) q
          = texts_at (encode_field row item t) q"
    using Cons.prems by (intro Cons.IH) simp
  also have "\<dots> = texts_at t q" using Cons.prems by (intro encode_field_elsewhere) simp
  finally show ?case by simp
qed

lemma encode_field_persist:
  "x \<in> set (texts_at t q) \<Longrightarrow> x \<in> set (texts_at (encode_field row item t) q)"
proof (cases "field_value row (fst item) (snd item)")
  case None
  then show "x \<in> set (texts_at t q) \<Longrightarrow> ?thesis" by (simp add: encode_field_None)
next
  case (Some v)
  from encode_field_Some [OF Some, of t] obtain ps l where
    d: "encode_field row item t = insert_leaf t ps l v" by blast
  show "x \<in> set (texts_at t q) \<Longrightarrow> ?thesis" unfolding d by (rule insert_leaf_persist)
qed

lemma encode_fields_persist:
  "x \<in> set (texts_at t q) \<Longrightarrow> x \<in> set (texts_at (fold (encode_field row) schema t) q)"
proof (induction schema arbitrary: t)
  case Nil
  then show ?case by simp
next
  case (Cons item schema)
  have "x \<in> set (texts_at (encode_field row item t) q)"
    using Cons.prems by (rule encode_field_persist)
  then show ?case using Cons.IH by simp
qed

lemma encode_fields_present:
  assumes "item \<in> set schema" "field_value row (fst item) (snd item) = Some v"
  shows "Some v \<in> set (texts_at (fold (encode_field row) schema t) (split_char CHR ''/'' (fst item)))"
  using assms(1)
proof (induction schema arbitrary: t)
  case Nil
  then show ?case by simp
next
  case (Cons it schema)
  show ?case
  proof (cases "item = it")
    case True
    from encode_field_Some [OF assms(2), of t] obtain ps l where
      d: "split_char CHR ''/'' (fst item) = ps @ [l]" "encode_field row item t = insert_leaf t ps l v"
      by blast
    have "Some v \<in> set (texts_at (encode_field row item t) (split_char CHR ''/'' (fst item)))"
      unfolding d by (rule insert_leaf_present)
    then show ?thesis using True by (simp add: encode_fields_persist)
  next
    case False
    then have "item \<in> set schema" using Cons.prems by simp
    then show ?thesis using Cons.IH by simp
  qed
qed

lemma insert_leaf_unique_step:
  assumes np: "\<not> prefix (ps @ [l]) q"
    and le: "\<And>k. 1 \<le> k \<Longrightarrow> k \<le> length q \<Longrightarrow> length (elems_at t (take k q)) \<le> 1"
    and k: "1 \<le> k" "k \<le> length q"
  shows "length (elems_at (insert_leaf t ps l v) (take k q)) \<le> 1"
proof (cases "prefix (take k q) (ps @ [l])")
  case False
  then have "texts_at (insert_leaf t ps l v) (take k q) = texts_at t (take k q)"
    by (rule insert_leaf_elsewhere)
  then have "length (elems_at (insert_leaf t ps l v) (take k q)) = length (elems_at t (take k q))"
    by (metis length_texts_at)
  then show ?thesis using le [OF k] by simp
next
  case True
  have "take k q \<noteq> ps @ [l]" using np by (metis take_is_prefix)
  then have "prefix (take k q) ps" using True by (metis prefix_snoc)
  then have tk: "take k q = take k ps" and kl: "k \<le> length ps"
    using k(2) by (auto simp: prefix_def)
  have "length (elems_at t (take j ps)) \<le> 1" if "1 \<le> j" "j \<le> k" for j
  proof -
    have "take j ps = take j (take k ps)" using that by (simp add: min_def)
    also have "\<dots> = take j q" using that tk [symmetric] by (simp add: min_def)
    finally show ?thesis using le [of j] that k(2) by simp
  qed
  then have "length (elems_at (insert_leaf t ps l v) (take k ps)) = 1"
    using k(1) kl by (intro insert_leaf_along) auto
  then show ?thesis using tk by simp
qed

lemma encode_fields_unique:
  assumes "\<forall>item \<in> set schema. field_value row (fst item) (snd item) \<noteq> None \<longrightarrow>
             \<not> prefix (split_char CHR ''/'' (fst item)) q"
    and "\<And>k. 1 \<le> k \<Longrightarrow> k \<le> length q \<Longrightarrow> length (elems_at t (take k q)) \<le> 1"
    and "1 \<le> k" "k \<le> length q"
  shows "length (elems_at (fold (encode_field row) schema t) (take k q)) \<le> 1"
  using assms
proof (induction schema arbitrary: t k)
  case Nil
  then show ?case by simp
next
  case (Cons item schema)
  have step: "length (elems_at (encode_field row item t) (take j q)) \<le> 1"
    if j: "1 \<le> j" "j \<le> length q" for j
  proof (cases "field_value row (fst item) (snd item)")
    case None
    then show ?thesis using Cons.prems(2) [OF j] by (simp add: encode_field_None)
  next
    case (Some v)
    from encode_field_Some [OF Some, of t] obtain ps l where
      d: "split_char CHR ''/'' (fst item) = ps @ [l]" "encode_field row item t = insert_leaf t ps l v"
      by blast
    have np: "\<not> prefix (ps @ [l]) q" using Cons.prems(1) Some d(1) by simp
    show ?thesis unfolding d(2)
      using np Cons.prems(2) j by (rule insert_leaf_unique_step)
  qed
  have "length (elems_at (fold (encode_field row) schema (encode_field row item t)) (take k q)) \<le> 1"
    using Cons.prems(1) step Cons.prems(3,4) by (intro Cons.IH) simp_all
  then show ?case by simp
qed

section \<open>Facts about the meta element\<close>

lemma set_text_simps [simp]:
  "tag (set_text v n) = tag n" "children (set_text v n) = children n"
  "elem_text (set_text v n) = Some v"
  by (simp_all add: set_text_def)

lemma find_truthy_Some:
  "find_truthy node p = Some i \<Longrightarrow> find_child p (children node) = Some i"
  by (auto simp: find_truthy_def split: option.splits if_splits)

lemma set_instance_id_tag [simp]: "tag (set_instance_id u m) = tag m"
  by (simp add: set_instance_id_def split: option.splits)

lemma add_deprecated_id_tag [simp]: "tag (add_deprecated_id d m) = tag m"
  by (simp add: add_deprecated_id_def split: option.splits)

lemma fill_meta_tag [simp]: "tag (fill_meta d u m) = tag m"
  by (simp add: fill_meta_def)

lemma set_instance_id_children:
  "(\<exists>xs c ys. children m = xs @ c # ys \<and> tag c = ''instanceID'' \<and>
       children (set_instance_id u m) = xs @ set_text (''uuid:'' @ u) c # ys) \<or>
   children (set_instance_id u m) = children m @ [Element ''instanceID'' [] (Some (''uuid:'' @ u)) []]"
proof (cases "find_truthy m ''instanceID''")
  case None
  then show ?thesis by (simp add: set_instance_id_def)
next
  case (Some j)
  from find_child_Some [OF find_truthy_Some [OF Some]] obtain xs c ys where
    d: "children m = xs @ c # ys" "j = length xs" "tag c = ''instanceID''" by blast
  have "children (set_instance_id u m) = xs @ set_text (''uuid:'' @ u) c # ys"
    using Some d by (simp add: set_instance_id_def)
  then show ?thesis using d by blast
qed

lemma set_instance_id_other:
  "p \<noteq> ''instanceID'' \<Longrightarrow>
   filter (\<lambda>c. tag c = p) (children (set_instance_id u m)) = filter (\<lambda>c. tag c = p) (children m)"
  using set_instance_id_children [of m u] by auto

lemma set_instance_id_present:
  "\<exists>c \<in> set (children (set_instance_id u m)). tag c = ''instanceID'' \<and> elem_text c = Some (''uuid:'' @ u)"
  using set_instance_id_children [of m u] by auto

lemma add_deprecated_id_children:
  "children (add_deprecated_id dep m) = children m @
     (case dep of None \<Rightarrow> []
      | Some d \<Rightarrow> if d \<noteq> [] then [Element ''deprecatedID'' [] (Some (ensure_uuid_prefix d)) []] else [])"
  by (simp add: add_deprecated_id_def split: option.splits)

lemma fill_meta_deprecated:
  "filter (\<lambda>c. tag c = ''deprecatedID'') (children (fill_meta dep u m)) =
     filter (\<lambda>c. tag c = ''deprecatedID'') (children m) @
     (case dep of None \<Rightarrow> []
      | Some d \<Rightarrow> if d \<noteq> [] then [Element ''deprecatedID'' [] (Some (ensure_uuid_prefix d)) []] else [])"
  by (simp add: fill_meta_def add_deprecated_id_children set_instance_id_other split: option.splits)

lemma fill_meta_instance:
  "\<exists>c \<in> set (children (fill_meta dep u m)). tag c = ''instanceID'' \<and> elem_text c = Some (''uuid:'' @ u)"
  using set_instance_id_present [of u m] by (auto simp: fill_meta_def add_deprecated_id_children)

lemma add_meta_children:
  "(\<exists>xs c ys. children t = xs @ c # ys \<and> tag c = ''meta'' \<and>
       children (add_meta dep u t) = xs @ fill_meta dep u c # ys) \<or>
   children (add_meta dep u t) = children t @ [fill_meta dep u (Element ''meta'' [] None [])]"
proof (cases "find_truthy t ''meta''")
  case None
  then show ?thesis by (simp add: add_meta_def)
next
  case (Some i)
  from find_child_Some [OF find_truthy_Some [OF Some]] obtain xs c ys where
    d: "children t = xs @ c # ys" "i = length xs" "tag c = ''meta''" by blast
  have "children (add_meta dep u t) = xs @ fill_meta dep u c # ys"
    using Some d by (simp add: add_meta_def)
  then show ?thesis using d by blast
qed

lemma add_meta_elsewhere:
  "p \<noteq> ''meta'' \<Longrightarrow> elems_at (add_meta dep u t) (p # qs) = elems_at t (p # qs)"
  using add_meta_children [of t dep u] by auto

lemma texts_at_root_empty: "q \<noteq> [] \<Longrightarrow> texts_at (Element f a x []) q = []"
  by (rule texts_at_leaf)

section \<open>C8: one element per shared group\<close>



section \<open>C5: the deprecatedID leaf\<close>

lemma concat_eq_Nil_filter:
  "concat (map f xs) = [] \<Longrightarrow> x \<in> set xs \<Longrightarrow> f x = []"
  by auto

text \<open>
  C5 (as amended). Let no entry of the schema map that yields a value have a path at or
  below \<open>meta/deprecatedID\<close>. Then the document has a \<open>meta/deprecatedID\<close> leaf exactly when
  \<open>deprecated_id\<close> is given and is not the empty string; there is then one such leaf, and
  its text is the identifier normalised by \<open>ensure_uuid_prefix\<close>. Without \<open>deprecated_id\<close>,
  or with the empty string, there is none. In every case the document has a
  \<open>meta/instanceID\<close> leaf whose text is \<open>"uuid:"\<close> followed by the generated identifier.
\<close>

theorem deprecated_id_leaf:
  assumes "\<forall>item \<in> set schema_map. field_value row (fst item) (snd item) \<noteq> None \<longrightarrow>
             \<not> prefix [''meta'', ''deprecatedID''] (split_char CHR ''/'' (fst item))"
  shows "texts_at (row_to_xml row form_id schema_map deprecated_id uuid4) [''meta'', ''deprecatedID'']
           = (case deprecated_id of
                None \<Rightarrow> []
              | Some d \<Rightarrow> if d \<noteq> [] then [Some (ensure_uuid_prefix d)] else []) \<and>
         Some (''uuid:'' @ uuid4)
           \<in> set (texts_at (row_to_xml row form_id schema_map deprecated_id uuid4)
                     [''meta'', ''instanceID''])"
proof -
  let ?root = "Element form_id [(''id'', form_id)] None []"
  let ?T = "encode_fields row form_id schema_map"
  let ?D = "row_to_xml row form_id schema_map deprecated_id uuid4"
  let ?dep = "case deprecated_id of None \<Rightarrow> []
      | Some d \<Rightarrow> if d \<noteq> [] then [Element ''deprecatedID'' [] (Some (ensure_uuid_prefix d)) []] else []"
  let ?F = "\<lambda>m. filter (\<lambda>c. tag c = ''deprecatedID'') (children m)"
  have "texts_at ?T [''meta'', ''deprecatedID''] = texts_at ?root [''meta'', ''deprecatedID'']"
    unfolding encode_fields_def using assms by (rule encode_fields_elsewhere)
  then have "elems_at ?T [''meta'', ''deprecatedID''] = []"
    by (simp add: texts_at_def)
  then have none: "concat (map ?F (filter (\<lambda>c. tag c = ''meta'') (children ?T))) = []"
    by (simp add: concat_map_singleton comp_def)
  have noneF: "?F m = []" if "m \<in> set (children ?T)" "tag m = ''meta''" for m
    using concat_eq_Nil_filter [OF none, of m] that by simp
  have D: "?D = add_meta deprecated_id uuid4 ?T" by (simp add: row_to_xml_def)
  have eD: "elems_at ?D [''meta'', ''deprecatedID'']
              = concat (map ?F (filter (\<lambda>c. tag c = ''meta'') (children ?D)))"
    by (simp add: concat_map_singleton comp_def)
  have eI: "elems_at ?D [''meta'', ''instanceID'']
              = concat (map (\<lambda>m. filter (\<lambda>c. tag c = ''instanceID'') (children m))
                  (filter (\<lambda>c. tag c = ''meta'') (children ?D)))"
    by (simp add: concat_map_singleton comp_def)
  from add_meta_children [of ?T deprecated_id uuid4]
  have "elems_at ?D [''meta'', ''deprecatedID''] = ?dep \<and>
        (\<exists>c \<in> set (elems_at ?D [''meta'', ''instanceID'']). elem_text c = Some (''uuid:'' @ uuid4))"
  proof
    assume "\<exists>xs c ys. children ?T = xs @ c # ys \<and> tag c = ''meta'' \<and>
       children (add_meta deprecated_id uuid4 ?T) = xs @ fill_meta deprecated_id uuid4 c # ys"
    then obtain xs c ys where d: "children ?T = xs @ c # ys" "tag c = ''meta''"
      "children ?D = xs @ fill_meta deprecated_id uuid4 c # ys" unfolding D by blast
    have fx: "concat (map ?F (filter (\<lambda>c. tag c = ''meta'') xs)) = []"
      using noneF d(1) by (auto simp: concat_eq_Nil_conv)
    have fy: "concat (map ?F (filter (\<lambda>c. tag c = ''meta'') ys)) = []"
      using noneF d(1) by (auto simp: concat_eq_Nil_conv)
    have fc: "?F c = []" using noneF [of c] d(1,2) by simp
    have 1: "elems_at ?D [''meta'', ''deprecatedID''] = ?dep"
      unfolding eD d(3) by (simp add: fill_meta_deprecated fx fy fc d(2))
    obtain i where i: "i \<in> set (children (fill_meta deprecated_id uuid4 c))"
      "tag i = ''instanceID''" "elem_text i = Some (''uuid:'' @ uuid4)"
      using fill_meta_instance [of deprecated_id uuid4 c] by blast
    have "i \<in> set (elems_at ?D [''meta'', ''instanceID''])"
      unfolding eI d(3) using i d(2) by simp
    then show ?thesis using 1 i(3) by blast
  next
    let ?m = "fill_meta deprecated_id uuid4 (Element ''meta'' [] None [])"
    assume "children (add_meta deprecated_id uuid4 ?T) = children ?T @ [?m]"
    then have d: "children ?D = children ?T @ [?m]" unfolding D .
    have 1: "elems_at ?D [''meta'', ''deprecatedID''] = ?dep"
      unfolding eD d by (simp add: fill_meta_deprecated none)
    obtain i where i: "i \<in> set (children ?m)"
      "tag i = ''instanceID''" "elem_text i = Some (''uuid:'' @ uuid4)"
      using fill_meta_instance [of deprecated_id uuid4 "Element ''meta'' [] None []"] by blast
    have "i \<in> set (elems_at ?D [''meta'', ''instanceID''])"
      unfolding eI d using i by simp
    then show ?thesis using 1 i(3) by blast
  qed
  then obtain c where e1: "elems_at ?D [''meta'', ''deprecatedID''] = ?dep"
    and c: "c \<in> set (elems_at ?D [''meta'', ''instanceID''])" "elem_text c = Some (''uuid:'' @ uuid4)"
    by blast
  have t1: "texts_at ?D [''meta'', ''deprecatedID'']
           = (case deprecated_id of
                None \<Rightarrow> []
              | Some d \<Rightarrow> if d \<noteq> [] then [Some (ensure_uuid_prefix d)] else [])"
    unfolding texts_at_def e1 by (simp split: option.splits)
  have "elem_text c \<in> elem_text ` set (elems_at ?D [''meta'', ''instanceID''])"
    using c(1) by (rule imageI)
  then have t2: "Some (''uuid:'' @ uuid4) \<in> set (texts_at ?D [''meta'', ''instanceID''])"
    unfolding texts_at_def c(2) set_map .
  show ?thesis using t1 t2 by (rule conjI)
qed

text \<open>The definitions unfolded to evaluate the encoder on a concrete row.\<close>

lemmas eval_defs =
  row_to_xml_def add_meta_def fill_meta_def set_instance_id_def add_deprecated_id_def
  encode_fields_def encode_field_def field_value_def plain_value_def geopoint_value_def
  add_leaf_def split_char_def find_truthy_def SubElement_def set_children_def set_text_def
  notna_def row_get_default_def texts_at_def
  strip_def lstrip_def rstrip_def is_space_def ensure_uuid_prefix_def startswith_def Let_def

text \<open>An update of the submission \<open>abc\<close>.\<close>

theorem deprecated_id_leaf_witness:
  "texts_at (row_to_xml [''name'' \<mapsto> Str ''Ann''] ''form''
       [(''name'', \<lparr>q_type = Some ''text'', q_name = Some ''name'', select_from_list_name = None, choice_list = None\<rparr>)]
       (Some ''abc'') ''0000'') [''meta'', ''deprecatedID''] = [Some ''uuid:abc''] \<and>
   Some ''uuid:0000'' \<in> set (texts_at (row_to_xml [''name'' \<mapsto> Str ''Ann''] ''form''
       [(''name'', \<lparr>q_type = Some ''text'', q_name = Some ''name'', select_from_list_name = None, choice_list = None\<rparr>)]
       (Some ''abc'') ''0000'') [''meta'', ''instanceID''])"
proof -
  let ?q = "\<lparr>q_type = Some ''text'', q_name = Some ''name'', select_from_list_name = None, choice_list = None\<rparr>"
  have h: "\<forall>item \<in> set [(''name'', ?q)].
      field_value [''name'' \<mapsto> Str ''Ann''] (fst item) (snd item) \<noteq> None \<longrightarrow>
      \<not> prefix [''meta'', ''deprecatedID''] (split_char CHR ''/'' (fst item))"
    by (simp add: split_char_def)
  have n: "ensure_uuid_prefix ''abc'' = ''uuid:abc''"
    by (simp add: ensure_uuid_prefix_def strip_def lstrip_def rstrip_def is_space_def startswith_def)
  show ?thesis
    using deprecated_id_leaf [OF h, of "''form''" "Some ''abc''" "''0000''"] by (simp add: n)
qed

text \<open>
  With the empty string as \<open>deprecated_id\<close> no leaf is added; and a create whose schema map
  has the path \<open>meta/deprecatedID\<close> carries such a leaf from the row.
\<close>

theorem deprecated_id_leaf_counterexample:
  "texts_at (row_to_xml Map.empty ''form'' [] (Some []) ''0000'') [''meta'', ''deprecatedID''] = [] \<and>
   texts_at (row_to_xml [''meta/deprecatedID'' \<mapsto> Str ''old''] ''form''
       [(''meta/deprecatedID'', \<lparr>q_type = Some ''text'', q_name = Some ''deprecatedID'',
                                    select_from_list_name = None, choice_list = None\<rparr>)]
       None ''0000'') [''meta'', ''deprecatedID''] = [Some ''old'']"
  by (simp add: eval_defs)

section \<open>C4: the meta element and its instanceID\<close>

text \<open>
  C4. The claim asks for exactly one \<open>meta\<close> element with exactly one \<open>instanceID\<close> child,
  also when the schema map has the leaf path \<open>meta/instanceID\<close>. On that input the leaf made
  from the row has no children, so it tests false in \<open>meta.find("instanceID") or ...\<close> and a
  second \<open>instanceID\<close> is added; likewise a leaf named \<open>meta\<close> is passed over and a second
  \<open>meta\<close> element is added. The theorem gives the two documents.
\<close>

theorem duplicate_instance_id:
  "row_to_xml [''meta/instanceID'' \<mapsto> Str ''x''] ''form''
       [(''meta/instanceID'', \<lparr>q_type = Some ''text'', q_name = Some ''instanceID'',
                                  select_from_list_name = None, choice_list = None\<rparr>)]
       None ''0000''
     = Element ''form'' [(''id'', ''form'')] None
         [Element ''meta'' [] None
            [Element ''instanceID'' [] (Some ''x'') [],
             Element ''instanceID'' [] (Some ''uuid:0000'') []]] \<and>
   row_to_xml [''meta'' \<mapsto> Str ''x''] ''form''
       [(''meta'', \<lparr>q_type = Some ''text'', q_name = Some ''meta'',
                       select_from_list_name = None, choice_list = None\<rparr>)]
       None ''0000''
     = Element ''form'' [(''id'', ''form'')] None
         [Element ''meta'' [] (Some ''x'') [],
          Element ''meta'' [] None [Element ''instanceID'' [] (Some ''uuid:0000'') []]]"
  by (simp add: eval_defs)

section \<open>C6: select_multiple cells\<close>

lemma replace_all_comma:
  "replace_all '','' '' '' s = map (\<lambda>c. if c = CHR '','' then CHR '' '' else c) s"
proof (induction s)
  case Nil
  show ?case by (simp add: replace_all.simps)
next
  case (Cons c cs)
  show ?case by (subst replace_all.simps) (simp add: startswith_def Cons.IH)
qed

lemma split_on_map:
  assumes "\<And>c. Q (f c) = P c" "\<And>c. \<not> P c \<Longrightarrow> f c = c"
  shows "split_on Q (map f s) = split_on P s"
  by (induction s) (auto simp: assms split: list.splits)

lemma split_on_pieces:
  "t \<in> set (split_on P s) \<Longrightarrow> c \<in> set t \<Longrightarrow> \<not> P c \<and> c \<in> set s"
proof (induction s arbitrary: t)
  case Nil
  then show ?case by simp
next
  case (Cons a s)
  obtain x xs where sp: "split_on P s = x # xs" by (cases "split_on P s") simp_all
  show ?case
  proof (cases "P a")
    case True
    then have "t = [] \<or> t \<in> set (split_on P s)" using Cons.prems(1) by auto
    then show ?thesis using Cons.IH [of t] Cons.prems(2) by auto
  next
    case False
    then have "t = a # x \<or> t \<in> set xs" using Cons.prems(1) sp by auto
    then show ?thesis
    proof
      assume "t = a # x"
      then have "c = a \<or> c \<in> set x" using Cons.prems(2) by auto
      then show ?thesis using False Cons.IH [of x] sp by auto
    next
      assume "t \<in> set xs"
      then show ?thesis using Cons.IH [of t] sp Cons.prems(2) by auto
    qed
  qed
qed

lemma split_on_clean: "t \<in> set (split_on P s) \<Longrightarrow> c \<in> set t \<Longrightarrow> \<not> P c"
  using split_on_pieces by blast

lemma strip_clean: "\<forall>c \<in> set t. \<not> is_space c \<Longrightarrow> strip t = t"
proof -
  assume a: "\<forall>c \<in> set t. \<not> is_space c"
  then have "dropWhile is_space t = t" by (cases t) auto
  moreover have "dropWhile is_space (rev t) = rev t" using a by (cases "rev t") auto
  ultimately show ?thesis by (simp add: strip_def lstrip_def rstrip_def)
qed

lemma select_tokens_code:
  "map strip (filter (\<lambda>t. strip t \<noteq> []) (py_split (replace_all '','' '' '' s)))
     = filter (\<lambda>t. t \<noteq> []) (split_on (\<lambda>c. c = CHR '','' \<or> is_space c) s)"
proof -
  let ?P = "\<lambda>c. c = CHR '','' \<or> is_space c"
  let ?f = "\<lambda>c. if c = CHR '','' then CHR '' '' else c"
  have sp: "split_on is_space (map ?f s) = split_on ?P s"
    by (rule split_on_map) auto
  have cl: "strip t = t" if "t \<in> set (split_on ?P s)" for t
    using split_on_clean [OF that] by (intro strip_clean) auto
  have "filter (\<lambda>t. strip t \<noteq> []) (filter (\<lambda>t. t \<noteq> []) (split_on ?P s))
          = filter (\<lambda>t. t \<noteq> []) (split_on ?P s)"
    unfolding filter_id_conv using cl by auto
  moreover have "map strip (filter (\<lambda>t. t \<noteq> []) (split_on ?P s)) = filter (\<lambda>t. t \<noteq> []) (split_on ?P s)"
    using cl by (intro map_idI) auto
  ultimately show ?thesis by (simp add: py_split_def replace_all_comma sp)
qed

lemma spec_select_tokens_pieces:
  "spec_select_tokens s = filter (\<lambda>t. t \<noteq> []) (split_on (\<lambda>c. c = CHR '','' \<or> is_space c) s)"
proof -
  let ?P = "\<lambda>c. c = CHR '','' \<or> is_space c"
  have "map strip (split_on ?P s) = split_on ?P s"
  proof (intro map_idI)
    fix t assume "t \<in> set (split_on ?P s)"
    from split_on_clean [OF this] show "strip t = t" by (intro strip_clean) auto
  qed
  then show ?thesis by (simp add: spec_select_tokens_def)
qed

lemma insert_leaf_texts_mset:
  "mset (texts_at (insert_leaf node ps l v) (ps @ [l]))
     = add_mset (Some v) (mset (texts_at node (ps @ [l])))"
proof (induction ps arbitrary: node)
  case Nil
  show ?case by (simp add: texts_at_Cons insert_leaf_Nil)
next
  case (Cons p ps)
  show ?case
  proof (cases "find_child p (children node)")
    case None
    then have f: "filter (\<lambda>c. tag c = p) (children node) = []" by (simp add: find_child_None)
    have "texts_at (Element p [] None []) (ps @ [l]) = []" by (simp add: texts_at_leaf)
    then show ?thesis using None f Cons.IH [of "Element p [] None []"]
      by (simp add: texts_at_Cons insert_leaf_Cons_None)
  next
    case (Some i)
    from insert_leaf_Cons_Some [OF Some, of ps l v] obtain xs c ys where
      d: "children node = xs @ c # ys" "tag c = p"
      "children (insert_leaf node (p # ps) l v) = xs @ insert_leaf c ps l v # ys" by blast
    show ?thesis using Cons.IH [of c] d by (simp add: texts_at_Cons)
  qed
qed

lemma add_leaf_texts_mset:
  "mset (texts_at (add_leaf root path v) (split_char CHR ''/'' path))
     = add_mset (Some v) (mset (texts_at root (split_char CHR ''/'' path)))"
proof -
  let ?parts = "split_char CHR ''/'' path"
  have "?parts = butlast ?parts @ [last ?parts]" by simp
  then show ?thesis
    using insert_leaf_texts_mset [of root "butlast ?parts" "last ?parts" v]
    by (simp add: add_leaf_insert_leaf)
qed



section \<open>C3: geopoint cells\<close>

text \<open>
  C3. The claim asks that a geopoint whose latitude or longitude is blank or absent emit
  nothing, and that a missing altitude or precision default to \<open>"0"\<close> and \<open>"0.0"\<close>. An
  empty cell of an uploaded table is \<open>NaN\<close>. The geopoint branch applies \<open>str()\<close> to the
  cell without the \<open>pd.notna\<close> test that the branch for plain questions makes, so \<open>NaN\<close>
  becomes the text \<open>"nan"\<close>: a row with a latitude and an empty longitude emits the leaf
  \<open>"1.5 nan 0 0.0"\<close>, and empty altitude and precision cells give \<open>"nan"\<close> instead of the
  defaults, which \<open>row.get\<close> supplies only for a column the row does not have. A
  whitespace-only altitude cell gives an empty component for the same reason. The theorem
  evaluates the encoder on these rows.
\<close>

theorem geopoint_missing_cell_emitted:
  "field_value [''loc_latitude'' \<mapsto> Str ''1.5'', ''loc_longitude'' \<mapsto> NaN] ''loc''
     \<lparr>q_type = Some ''geopoint'', q_name = Some ''loc'', select_from_list_name = None,
        choice_list = None\<rparr> = Some ''1.5 nan 0 0.0'' \<and>
   row_to_xml [''loc_latitude'' \<mapsto> Str ''1.5'', ''loc_longitude'' \<mapsto> NaN] ''form''
       [(''loc'', \<lparr>q_type = Some ''geopoint'', q_name = Some ''loc'', select_from_list_name = None,
                     choice_list = None\<rparr>)]
       None ''0000''
     = Element ''form'' [(''id'', ''form'')] None
         [Element ''loc'' [] (Some ''1.5 nan 0 0.0'') [],
          Element ''meta'' [] None [Element ''instanceID'' [] (Some ''uuid:0000'') []]] \<and>
   field_value [''loc_latitude'' \<mapsto> Str ''1.5'', ''loc_longitude'' \<mapsto> Str ''2.5'',
                ''loc_altitude'' \<mapsto> NaN, ''loc_precision'' \<mapsto> NaN] ''loc''
     \<lparr>q_type = Some ''geopoint'', q_name = Some ''loc'', select_from_list_name = None,
        choice_list = None\<rparr> = Some ''1.5 2.5 nan nan'' \<and>
   field_value [''loc_latitude'' \<mapsto> Str ''1.5'', ''loc_longitude'' \<mapsto> Str ''2.5'',
                ''loc_altitude'' \<mapsto> Str '' ''] ''loc''
     \<lparr>q_type = Some ''geopoint'', q_name = Some ''loc'', select_from_list_name = None,
        choice_list = None\<rparr> = Some ''1.5 2.5  0.0''"
  by (simp add: eval_defs)

section \<open>Facts about the schema flattener\<close>

lemma dict_get_PDict:
  "dict_get (PDict d) k v = Inr (case map_of d k of None \<Rightarrow> v | Some x \<Rightarrow> x)"
  by (simp add: dict_get_def)

lemma py_join_strs: "py_join sep (map PStr ss @ [PStr n]) = Inr (join sep (ss @ [n]))"
proof -
  have a: "list_all is_str (map PStr ss @ [PStr n])" by (simp add: list_all_iff)
  have b: "map str_val (map PStr ss @ [PStr n]) = ss @ [n]" by (simp add: comp_def)
  show ?thesis unfolding py_join_def using a b by simp
qed

lemma flatten_step_begin:
  assumes "node_type d \<in> {PStr ''begin_group'', PStr ''begin_repeat''}"
  shows "flatten_step (PDict d) (cols, stack) =
     Inr (cols, stack @ [case map_of d ''name'' of None \<Rightarrow> PStr ''group'' | Some n \<Rightarrow> n])"
proof -
  from assms consider "node_type d = PStr ''begin_group''" | "node_type d = PStr ''begin_repeat''"
    by blast
  then show ?thesis
    by cases (simp_all add: flatten_step_def node_type_def dict_get_PDict startswith_def)
qed

lemma flatten_step_end:
  assumes "node_type d \<in> {PStr ''end_group'', PStr ''end_repeat''}"
  shows "flatten_step (PDict d) (cols, stack) = Inr (cols, butlast stack)"
proof -
  from assms consider "node_type d = PStr ''end_group''" | "node_type d = PStr ''end_repeat''"
    by blast
  then show ?thesis
    by cases (simp_all add: flatten_step_def node_type_def dict_get_PDict startswith_def py_pop_def)
qed

lemma flatten_step_skip:
  assumes "\<not> group_marker (node_type d)"
    and "case map_of d ''name'' of None \<Rightarrow> True | Some n \<Rightarrow> \<not> py_truthy n \<or> starts_underscore n"
  shows "flatten_step (PDict d) st = Inr st"
  using assms
  by (auto simp: flatten_step_def node_type_def dict_get_PDict group_marker_def Let_def
           split: option.splits)

lemma flatten_step_leaf:
  assumes "\<not> group_marker (node_type d)"
    and "map_of d ''name'' = Some (PStr n)" and "valid_name n"
  shows "flatten_step (PDict d) (cols, map PStr ss) =
     Inr (cols @
          (if node_type d = PStr ''geopoint'' then
             map (\<lambda>suffix. (join ''/'' (ss @ [n]) @ suffix, PDict d))
               [''_latitude'', ''_longitude'', ''_altitude'', ''_precision'']
           else if node_type d = PStr ''select_multiple'' then
             [(join ''/'' (ss @ [n]),
               PDict (dict_set ''_choice_list''
                        (case map_of d ''select_from_list_name'' of None \<Rightarrow> PNone | Some v \<Rightarrow> v) d))]
           else [(join ''/'' (ss @ [n]), PDict d)]),
          map PStr ss)"
  using assms
  by (auto simp: flatten_step_def node_type_def dict_get_PDict group_marker_def Let_def
                 valid_name_def py_join_strs)

lemma join_snoc_slash: "ss \<noteq> [] \<Longrightarrow> CHR ''/'' \<in> set (join ''/'' (ss @ [n]))"
  by (cases ss; cases "tl ss @ [n]") auto

lemma valid_name_hd: "valid_name n \<Longrightarrow> \<exists>c cs. n = c # cs \<and> c \<noteq> CHR ''_''"
  by (cases n) (auto simp: valid_name_def startswith_def)

lemma path_not_system:
  assumes "valid_name n"
  shows "join ''/'' (ss @ [n]) @ sfx \<noteq> ''_uuid'' \<and> join ''/'' (ss @ [n]) @ sfx \<noteq> ''_id''"
proof (cases "ss = []")
  case True
  obtain c cs where "n = c # cs" "c \<noteq> CHR ''_''" using valid_name_hd [OF assms] by blast
  then show ?thesis using True by simp
next
  case False
  then have "CHR ''/'' \<in> set (join ''/'' (ss @ [n]) @ sfx)" using join_snoc_slash by simp
  moreover have "CHR ''/'' \<notin> set ''_uuid''" "CHR ''/'' \<notin> set ''_id''" by simp_all
  ultimately show ?thesis by metis
qed

lemma flatten_step_named:
  assumes "named_node q"
  shows "\<exists>cols' ss'. flatten_step q (cols, map PStr ss) = Inr (cols @ cols', map PStr ss') \<and>
           length cols' = col_count q \<and> ''_uuid'' \<notin> fst ` set cols' \<and> ''_id'' \<notin> fst ` set cols'"
proof -
  obtain d where q: "q = PDict d" using assms by (cases q) (auto simp: named_node_def)
  have nm: "map_of d ''name'' = None \<or> (\<exists>n. map_of d ''name'' = Some (PStr n))"
  proof (cases "map_of d ''name''")
    case None
    then show ?thesis by simp
  next
    case (Some v)
    then have "is_str v" using assms q by (simp add: named_node_def)
    then show ?thesis using Some by (cases v) auto
  qed
  show ?thesis
  proof (cases "group_marker (node_type d)")
    case True
    then consider (b) "node_type d \<in> {PStr ''begin_group'', PStr ''begin_repeat''}"
      | (e) "node_type d \<in> {PStr ''end_group'', PStr ''end_repeat''}"
      by (auto simp: group_marker_def)
    then show ?thesis
    proof cases
      case b
      obtain x where x: "(case map_of d ''name'' of None \<Rightarrow> PStr ''group'' | Some n \<Rightarrow> n) = PStr x"
        using nm by (auto split: option.splits)
      have "flatten_step q (cols, map PStr ss) = Inr (cols @ [], map PStr (ss @ [x]))"
        unfolding q flatten_step_begin [OF b] x by simp
      moreover have "col_count q = 0" using True by (simp add: col_count_def q)
      ultimately show ?thesis by (metis empty_iff image_empty list.set(1) list.size(3))
    next
      case e
      have "flatten_step q (cols, map PStr ss) = Inr (cols @ [], map PStr (butlast ss))"
        unfolding q flatten_step_end [OF e] by (simp add: map_butlast)
      moreover have "col_count q = 0" using True by (simp add: col_count_def q)
      ultimately show ?thesis by (metis empty_iff image_empty list.set(1) list.size(3))
    qed
  next
    case gm: False
    show ?thesis
    proof (cases "\<exists>n. map_of d ''name'' = Some (PStr n) \<and> valid_name n")
      case False
      then have sk: "case map_of d ''name'' of None \<Rightarrow> True
                     | Some n \<Rightarrow> \<not> py_truthy n \<or> starts_underscore n"
        using nm by (auto simp: valid_name_def)
      have "flatten_step q (cols, map PStr ss) = Inr (cols @ [], map PStr ss)"
        unfolding q flatten_step_skip [OF gm sk] by simp
      moreover have "col_count q = 0"
        using False gm nm by (auto simp: col_count_def q)
      ultimately show ?thesis by (metis empty_iff image_empty list.set(1) list.size(3))
    next
      case True
      then obtain n where n: "map_of d ''name'' = Some (PStr n)" "valid_name n" by blast
      let ?p = "join ''/'' (ss @ [n])"
      let ?cs = "if node_type d = PStr ''geopoint'' then
             map (\<lambda>suffix. (?p @ suffix, PDict d))
               [''_latitude'', ''_longitude'', ''_altitude'', ''_precision'']
           else if node_type d = PStr ''select_multiple'' then
             [(?p,
               PDict (dict_set ''_choice_list''
                        (case map_of d ''select_from_list_name'' of None \<Rightarrow> PNone | Some v \<Rightarrow> v) d))]
           else [(?p, PDict d)]"
      have st: "flatten_step q (cols, map PStr ss) = Inr (cols @ ?cs, map PStr ss)"
        unfolding q by (rule flatten_step_leaf [OF gm n])
      have len: "length ?cs = col_count q"
        using gm n by (simp add: col_count_def q)
      have ps: "''_uuid'' \<notin> fst ` set ?cs \<and> ''_id'' \<notin> fst ` set ?cs"
        using path_not_system [OF n(2), of ss "[]"] path_not_system [OF n(2), of ss "''_latitude''"]
          path_not_system [OF n(2), of ss "''_longitude''"]
          path_not_system [OF n(2), of ss "''_altitude''"]
          path_not_system [OF n(2), of ss "''_precision''"]
        by (cases "node_type d = PStr ''geopoint''";
            cases "node_type d = PStr ''select_multiple''") (simp_all, metis+)
      show ?thesis using st len ps by blast
    qed
  qed
qed

lemma flatten_loop_named:
  assumes "\<forall>q \<in> set qs. named_node q"
  shows "\<exists>cols'. flatten_loop qs (cols, map PStr ss) = Inr (cols @ cols') \<and>
           length cols' = sum_list (map col_count qs) \<and>
           ''_uuid'' \<notin> fst ` set cols' \<and> ''_id'' \<notin> fst ` set cols'"
  using assms
proof (induction qs arbitrary: cols ss)
  case Nil
  then show ?case by simp
next
  case (Cons q qs)
  have nq: "named_node q" using Cons.prems by simp
  obtain c1 s1 where s1: "flatten_step q (cols, map PStr ss) = Inr (cols @ c1, map PStr s1)"
    "length c1 = col_count q" "''_uuid'' \<notin> fst ` set c1" "''_id'' \<notin> fst ` set c1"
    using flatten_step_named [OF nq, of cols ss] by blast
  have "\<forall>q \<in> set qs. named_node q" using Cons.prems by simp
  then obtain c2 where c2: "flatten_loop qs (cols @ c1, map PStr s1) = Inr ((cols @ c1) @ c2)"
    "length c2 = sum_list (map col_count qs)" "''_uuid'' \<notin> fst ` set c2" "''_id'' \<notin> fst ` set c2"
    using Cons.IH [of "cols @ c1" s1] by blast
  have "flatten_loop (q # qs) (cols, map PStr ss) = Inr (cols @ (c1 @ c2))"
    using s1(1) c2(1) by simp
  moreover have "length (c1 @ c2) = sum_list (map col_count (q # qs))" using s1(2) c2(2) by simp
  moreover have "''_uuid'' \<notin> fst ` set (c1 @ c2)" "''_id'' \<notin> fst ` set (c1 @ c2)"
    using s1(3,4) c2(3,4) by auto
  ultimately show ?case by blast
qed

lemma dict_set_map_fst:
  "map fst (dict_set k v d) = (if k \<in> fst ` set d then map fst d else map fst d @ [k])"
  by (induction d) auto

lemma dict_set_fresh: "k \<notin> fst ` set d \<Longrightarrow> dict_set k v d = d @ [(k, v)]"
  by (induction d) auto

lemma fold_dict_set_keys:
  "set (map fst (fold (\<lambda>kv d. dict_set (fst kv) (snd kv) d) kvs d)) = fst ` set d \<union> fst ` set kvs"
proof (induction kvs arbitrary: d)
  case Nil
  then show ?case by simp
next
  case (Cons kv kvs)
  have "set (map fst (dict_set (fst kv) (snd kv) d)) = insert (fst kv) (fst ` set d)"
    unfolding dict_set_map_fst by auto
  then show ?case using Cons.IH [of "dict_set (fst kv) (snd kv) d"] by auto
qed

lemma fold_dict_set_distinct_keys:
  "distinct (map fst d) \<Longrightarrow>
   distinct (map fst (fold (\<lambda>kv d. dict_set (fst kv) (snd kv) d) kvs d))"
proof (induction kvs arbitrary: d)
  case Nil
  then show ?case by simp
next
  case (Cons kv kvs)
  have "distinct (map fst (dict_set (fst kv) (snd kv) d))"
    unfolding dict_set_map_fst using Cons.prems by auto
  then show ?case using Cons.IH [of "dict_set (fst kv) (snd kv) d"] by simp
qed

lemma fold_dict_set_distinct:
  "distinct (map fst (d @ kvs)) \<Longrightarrow>
   fold (\<lambda>kv d. dict_set (fst kv) (snd kv) d) kvs d = d @ kvs"
proof (induction kvs arbitrary: d)
  case Nil
  then show ?case by simp
next
  case (Cons kv kvs)
  have fresh: "fst kv \<notin> fst ` set d" using Cons.prems by auto
  have "distinct (map fst ((d @ [kv]) @ kvs))" using Cons.prems by simp
  then have "fold (\<lambda>kv d. dict_set (fst kv) (snd kv) d) kvs (d @ [kv]) = (d @ [kv]) @ kvs"
    by (rule Cons.IH)
  then show ?case using fresh by (simp add: dict_set_fresh)
qed

lemma dict_of_keys: "fst ` set (dict_of kvs) = fst ` set kvs"
  using fold_dict_set_keys [of kvs "[]"] by (simp add: dict_of_def)

lemma dict_of_distinct_keys: "distinct (map fst (dict_of kvs))"
  using fold_dict_set_distinct_keys [of "[]" kvs] by (simp add: dict_of_def)

lemma dict_of_distinct: "distinct (map fst kvs) \<Longrightarrow> dict_of kvs = kvs"
  using fold_dict_set_distinct [of "[]" kvs] by (simp add: dict_of_def)

lemma dict_of_length: "length (dict_of kvs) = card (fst ` set kvs)"
proof -
  have "length (dict_of kvs) = length (map fst (dict_of kvs))" by simp
  also have "\<dots> = card (set (map fst (dict_of kvs)))"
    using dict_of_distinct_keys [of kvs] by (simp only: distinct_card)
  also have "\<dots> = card (fst ` set kvs)" using dict_of_keys [of kvs] by simp
  finally show ?thesis .
qed

lemma system_cols:
  assumes "''_uuid'' \<notin> set hs" "''_id'' \<notin> set hs"
  shows "fold add_system_col [''meta/instanceID'', ''_uuid'', ''_id''] hs =
         hs @ (if ''meta/instanceID'' \<in> set hs then [] else [''meta/instanceID'']) @
           [''_uuid'', ''_id'']"
  using assms by (simp add: add_system_col_def)

lemma mset3_cases:
  assumes "mset bs = {#x, y, z#}"
  shows "bs \<in> {[x, y, z], [x, z, y], [y, x, z], [y, z, x], [z, x, y], [z, y, x]}"
proof -
  have "size (mset bs) = 3" unfolding assms by simp
  then have "length bs = 3" by simp
  then obtain u v w where bs: "bs = [u, v, w]"
    by (metis (no_types) length_0_conv length_Suc_conv numeral_3_eq_3)
  have "{#u, v, w#} = {#x, y, z#}" using assms unfolding bs by simp
  then show ?thesis unfolding bs
    by (auto simp: add_eq_conv_ex)
qed

section \<open>C10: what the schema flattener tolerates\<close>

lemmas flat_defs = flatten_survey_def build_template_df_def choice_map_def flatten_step_def
  dict_get_def py_join_def py_pop_def dict_of_def add_system_col_def startswith_def Let_def

text \<open>
  C10. The claim asks that the flattener never raise, that a node with a missing name be
  skipped and that missing survey data give an empty column list and an empty schema map.
  The code tolerates a key that is absent, but not a key that is present with the value
  \<open>None\<close> (a JSON \<open>null\<close>). An open marker whose name is \<open>None\<close> pushes \<open>None\<close> onto the
  stack, since the default of \<open>q.get("name", "group")\<close> is used for an absent key only, and
  the next leaf raises \<open>TypeError\<close> in \<open>"/".join\<close>; the same marker without the key pushes
  \<open>"group"\<close>, and a leaf whose name is \<open>None\<close> is skipped by \<open>if not name\<close>. A leaf whose
  name is the number \<open>5\<close> passes the test made on \<open>str(name)\<close> and raises in the join. A
  choice whose \<open>list_name\<close> is a list raises when it is used as a key of the choice map. An
  asset without \<open>content\<close> gives the empty schema map and the three system columns, but a
  \<open>content\<close> that is \<open>None\<close> raises \<open>AttributeError\<close>, and a \<open>survey\<close> or \<open>choices\<close> that is
  \<open>None\<close> raises \<open>TypeError\<close>. A close marker met with an empty stack is passed over.
  The theorem evaluates the flattener on these inputs.
\<close>

theorem flatten_survey_raises:
  "flatten_survey
     (PList [PDict [(''type'', PStr ''begin_group''), (''name'', PNone)],
             PDict [(''type'', PStr ''text''), (''name'', PStr ''a'')]])
     (PList []) = Inl TypeError \<and>
   flatten_survey
     (PList [PDict [(''type'', PStr ''begin_group'')],
             PDict [(''type'', PStr ''text''), (''name'', PStr ''a'')]])
     (PList [])
     = Inr [(''group/a'', PDict [(''type'', PStr ''text''), (''name'', PStr ''a'')])] \<and>
   flatten_survey (PList [PDict [(''type'', PStr ''text''), (''name'', PNone)]]) (PList [])
     = Inr [] \<and>
   flatten_survey (PList [PDict [(''type'', PStr ''text''), (''name'', PInt 5)]]) (PList [])
     = Inl TypeError \<and>
   flatten_survey (PList [PDict [(''type'', PStr ''end_group'')]]) (PList []) = Inr [] \<and>
   flatten_survey (PList []) (PList [PDict [(''list_name'', PList [])]]) = Inl TypeError \<and>
   build_template_df (PDict []) = Inr ([''meta/instanceID'', ''_uuid'', ''_id''], []) \<and>
   build_template_df (PDict [(''content'', PNone)]) = Inl AttributeError \<and>
   build_template_df (PDict [(''content'', PDict [(''survey'', PNone)])]) = Inl TypeError \<and>
   build_template_df (PDict [(''content'', PDict [(''choices'', PNone)])]) = Inl TypeError"
  by (simp add: flat_defs)

section \<open>C7: the columns of a flattened survey\<close>

lemma flatten_loop_leaf:
  assumes "\<not> group_marker (node_type d)"
    and "map_of d ''name'' = Some (PStr n)" and "valid_name n"
  shows "flatten_loop (PDict d # rest) (cols, map PStr ss) =
     flatten_loop rest
       (cols @
          (if node_type d = PStr ''geopoint'' then
             map (\<lambda>suffix. (join ''/'' (ss @ [n]) @ suffix, PDict d))
               [''_latitude'', ''_longitude'', ''_altitude'', ''_precision'']
           else if node_type d = PStr ''select_multiple'' then
             [(join ''/'' (ss @ [n]),
               PDict (dict_set ''_choice_list''
                        (case map_of d ''select_from_list_name'' of None \<Rightarrow> PNone | Some v \<Rightarrow> v) d))]
           else [(join ''/'' (ss @ [n]), PDict d)]),
        map PStr ss)"
  by (simp add: flatten_step_leaf [OF assms])

lemma flatten_loop_group:
  assumes b: "node_type db \<in> {PStr ''begin_group'', PStr ''begin_repeat''}"
    and bn: "map_of db ''name'' = Some (PStr grp)"
    and e: "node_type de \<in> {PStr ''end_group'', PStr ''end_repeat''}"
    and p1: "\<not> group_marker (node_type d1)"
      "node_type d1 \<noteq> PStr ''geopoint''" "node_type d1 \<noteq> PStr ''select_multiple''"
      "map_of d1 ''name'' = Some (PStr a)" "valid_name a"
    and p2: "\<not> group_marker (node_type d2)"
      "node_type d2 \<noteq> PStr ''geopoint''" "node_type d2 \<noteq> PStr ''select_multiple''"
      "map_of d2 ''name'' = Some (PStr b)" "valid_name b"
  shows "flatten_loop (PDict db # PDict d1 # PDict d2 # PDict de # rest) (cols, []) =
     flatten_loop rest
       (cols @ [(grp @ ''/'' @ a, PDict d1), (grp @ ''/'' @ b, PDict d2)], [])"
proof -
  let ?c1 = "cols @ [(grp @ ''/'' @ a, PDict d1)]"
  let ?c2 = "?c1 @ [(grp @ ''/'' @ b, PDict d2)]"
  have s1: "flatten_step (PDict db) (cols, []) = Inr (cols, [PStr grp])"
    using flatten_step_begin [OF b, of cols "[]"] bn by simp
  have s2: "flatten_step (PDict d1) (cols, [PStr grp]) = Inr (?c1, [PStr grp])"
    using flatten_step_leaf [OF p1(1) p1(4) p1(5), of cols "[grp]"] p1(2,3) by simp
  have s3: "flatten_step (PDict d2) (?c1, [PStr grp]) = Inr (?c2, [PStr grp])"
    using flatten_step_leaf [OF p2(1) p2(4) p2(5), of ?c1 "[grp]"] p2(2,3) by simp
  have s4: "flatten_step (PDict de) (?c2, [PStr grp]) = Inr (?c2, [])"
    using flatten_step_end [OF e, of ?c2 "[PStr grp]"] by simp
  show ?thesis
    by (simp only: flatten_loop.simps s1 s2 s3 s4 sum.case) simp
qed

lemma length_eq_card_iff: "length xs = card (set xs) \<longleftrightarrow> distinct xs"
  using card_distinct [of xs] distinct_card [of xs] by auto





end
